theory Spec2Isabelle
  imports Main "HOL-Library.Word" "HOL-Library.Monad_Syntax"
begin

unbundle bit_operations_syntax

section \<open>Field elements: five 64-bit limbs in base \<open>2^52\<close>\<close>

text \<open>
  The class \<open>FieldElem\<close> of \<open>src/secp256k1.cpp\<close> holds \<open>uint64_t n[5]\<close>; the array has
  a fixed size and is only ever indexed by literals, so it is a record of five words.
  \<open>VERIFY_MAGNITUDE\<close> is not defined (line 7 is a comment), so there is no magnitude field
  and no assertion in the compiled code.
\<close>

type_synonym u64 = "64 word"

record FieldElem =
  n0 :: u64
  n1 :: u64
  n2 :: u64
  n3 :: u64
  n4 :: u64

text \<open>The field prime \<open>p = 2^256 - 2^32 - 977\<close> and the integer a representation stands for
  (line 21: \<open>X = sum(i=0..4, elem[i]*2^52)\<close>, the weight of limb \<open>i\<close> being \<open>2^(52 i)\<close>).\<close>

definition P :: int where
  "P = 2 ^ 256 - 2 ^ 32 - 977"

definition val :: "FieldElem \<Rightarrow> int" where
  "val a = uint (n0 a) + uint (n1 a) * 2 ^ 52 + uint (n2 a) * 2 ^ 104
           + uint (n3 a) * 2 ^ 156 + uint (n4 a) * 2 ^ 208"

text \<open>Magnitude \<open>M\<close> as the class comment (lines 14-15) defines it: every limb at most
  \<open>M * (2^53 - 1)\<close>, the most significant one at most \<open>M * (2^49 - 1)\<close>.\<close>

definition mag :: "int \<Rightarrow> FieldElem \<Rightarrow> bool" where
  "mag M a \<longleftrightarrow> uint (n0 a) \<le> M * (2 ^ 53 - 1) \<and> uint (n1 a) \<le> M * (2 ^ 53 - 1)
     \<and> uint (n2 a) \<le> M * (2 ^ 53 - 1) \<and> uint (n3 a) \<le> M * (2 ^ 53 - 1)
     \<and> uint (n4 a) \<le> M * (2 ^ 49 - 1)"

text \<open>Canonical form: limbs 0..3 below \<open>2^52\<close>, limb 4 below \<open>2^48\<close>, value below \<open>p\<close>.\<close>

definition canonical :: "FieldElem \<Rightarrow> bool" where
  "canonical a \<longleftrightarrow> uint (n0 a) < 2 ^ 52 \<and> uint (n1 a) < 2 ^ 52 \<and> uint (n2 a) < 2 ^ 52
     \<and> uint (n3 a) < 2 ^ 52 \<and> uint (n4 a) < 2 ^ 48 \<and> val a < P"

text \<open>Constructor \<open>FieldElem(int x = 0)\<close>, lines 30-36. The \<open>int\<close> is converted to
  \<open>uint64_t\<close>, that is, taken modulo \<open>2^64\<close>.\<close>

definition FieldElem_int :: "int \<Rightarrow> FieldElem" where
  "FieldElem_int x = \<lparr>n0 = word_of_int x, n1 = 0, n2 = 0, n3 = 0, n4 = 0\<rparr>"

text \<open>\<open>Normalize\<close>, lines 39-78. All arithmetic is on \<open>uint64_t\<close> and wraps. The carry
  \<open>c\<close> computed by line 64 is not read again.\<close>

definition Normalize :: "FieldElem \<Rightarrow> FieldElem" where
  "Normalize a =
    (let a' =
       (if n0 a > 0xFFFFFFFFFFFFF \<or> n1 a > 0xFFFFFFFFFFFFF \<or> n2 a > 0xFFFFFFFFFFFFF
           \<or> n3 a > 0xFFFFFFFFFFFFF \<or> n4 a > 0xFFFFFFFFFFFF
        then
          let c = n0 a;
              t0 = c AND 0xFFFFFFFFFFFFF;
              c = drop_bit 52 c + n1 a;
              t1 = c AND 0xFFFFFFFFFFFFF;
              c = drop_bit 52 c + n2 a;
              t2 = c AND 0xFFFFFFFFFFFFF;
              c = drop_bit 52 c + n3 a;
              t3 = c AND 0xFFFFFFFFFFFFF;
              c = drop_bit 52 c + n4 a;
              t4 = c AND 0x0FFFFFFFFFFFF;
              c = drop_bit 48 c
          in if c \<noteq> 0
             then
               let c = c * 0x1000003D1 + t0;
                   t0 = c AND 0xFFFFFFFFFFFFF;
                   c = drop_bit 52 c + t1;
                   t1 = c AND 0xFFFFFFFFFFFFF;
                   c = drop_bit 52 c + t2;
                   t2 = c AND 0xFFFFFFFFFFFFF;
                   c = drop_bit 52 c + t3;
                   t3 = c AND 0xFFFFFFFFFFFFF;
                   c = drop_bit 52 c + t4;
                   t4 = c AND 0x0FFFFFFFFFFFF
               in \<lparr>n0 = t0, n1 = t1, n2 = t2, n3 = t3, n4 = t4\<rparr>
             else \<lparr>n0 = t0, n1 = t1, n2 = t2, n3 = t3, n4 = t4\<rparr>
        else a)
     in if n4 a' = 0xFFFFFFFFFFFF \<and> n3 a' = 0xFFFFFFFFFFFFF \<and> n2 a' = 0xFFFFFFFFFFFFF
           \<and> n1 a' = 0xFFFFFFFFFFFFF \<and> n0 a' \<ge> 0xFFFFEFFFFFC2F
        then \<lparr>n0 = n0 a' - 0xFFFFEFFFFFC2F, n1 = 0, n2 = 0, n3 = 0, n4 = 0\<rparr>
        else a')"

text \<open>\<open>IsZero\<close> (lines 80-83) and \<open>operator==\<close> (lines 85-89) normalise their operands in
  place and then compare limbs; the models return the normalised operands with the answer.\<close>

definition IsZero :: "FieldElem \<Rightarrow> bool \<times> FieldElem" where
  "IsZero a =
    (let a = Normalize a
     in (n0 a = 0 \<and> n1 a = 0 \<and> n2 a = 0 \<and> n3 a = 0 \<and> n4 a = 0, a))"

definition equals :: "FieldElem \<Rightarrow> FieldElem \<Rightarrow> bool \<times> FieldElem \<times> FieldElem" where
  "equals a b =
    (let a = Normalize a; b = Normalize b
     in (n0 a = n0 b \<and> n1 a = n1 b \<and> n2 a = n2 b \<and> n3 a = n3 b \<and> n4 a = n4 b, a, b))"

text \<open>\<open>Get\<close> (lines 91-97) and \<open>Set\<close> (lines 99-108). The argument is a pointer to an
  array of four \<open>uint64_t\<close>, word 0 lowest: a list, which every caller gives four elements.\<close>

definition Get :: "FieldElem \<Rightarrow> u64 list \<times> FieldElem" where
  "Get a =
    (let a = Normalize a
     in ([n0 a OR push_bit 52 (n1 a),
          drop_bit 12 (n1 a) OR push_bit 40 (n2 a),
          drop_bit 24 (n2 a) OR push_bit 28 (n3 a),
          drop_bit 36 (n3 a) OR push_bit 16 (n4 a)], a))"

definition Set :: "u64 list \<Rightarrow> FieldElem" where
  "Set in' =
     \<lparr>n0 = (in' ! 0) AND 0xFFFFFFFFFFFFF,
      n1 = (drop_bit 52 (in' ! 0) OR push_bit 12 (in' ! 1)) AND 0xFFFFFFFFFFFFF,
      n2 = (drop_bit 40 (in' ! 1) OR push_bit 24 (in' ! 2)) AND 0xFFFFFFFFFFFFF,
      n3 = (drop_bit 28 (in' ! 2) OR push_bit 36 (in' ! 3)) AND 0xFFFFFFFFFFFFF,
      n4 = drop_bit 16 (in' ! 3)\<rparr>"

text \<open>\<open>SetNeg\<close>, lines 111-121. \<open>magnitudeIn + 1\<close> is an \<open>int\<close> converted to \<open>uint64_t\<close>;
  the product and the subtraction are on \<open>uint64_t\<close> and wrap.\<close>

definition SetNeg :: "FieldElem \<Rightarrow> int \<Rightarrow> FieldElem" where
  "SetNeg a magnitudeIn =
    \<lparr>n0 = 0xFFFFEFFFFFC2F * word_of_int (magnitudeIn + 1) - n0 a,
     n1 = 0xFFFFFFFFFFFFF * word_of_int (magnitudeIn + 1) - n1 a,
     n2 = 0xFFFFFFFFFFFFF * word_of_int (magnitudeIn + 1) - n2 a,
     n3 = 0xFFFFFFFFFFFFF * word_of_int (magnitudeIn + 1) - n3 a,
     n4 = 0x0FFFFFFFFFFFF * word_of_int (magnitudeIn + 1) - n4 a\<rparr>"

text \<open>\<open>operator*=(int v)\<close>, lines 124-133, and \<open>operator+=\<close>, lines 135-144.\<close>

definition scale :: "FieldElem \<Rightarrow> int \<Rightarrow> FieldElem" where
  "scale a v =
    \<lparr>n0 = n0 a * word_of_int v, n1 = n1 a * word_of_int v, n2 = n2 a * word_of_int v,
     n3 = n3 a * word_of_int v, n4 = n4 a * word_of_int v\<rparr>"

definition add :: "FieldElem \<Rightarrow> FieldElem \<Rightarrow> FieldElem" where
  "add r a =
    \<lparr>n0 = n0 r + n0 a, n1 = n1 r + n1 a, n2 = n2 r + n2 a,
     n3 = n3 r + n3 a, n4 = n4 r + n4 a\<rparr>"

section \<open>Multiplication and squaring\<close>

text \<open>
  \<open>SetMult\<close> (lines 147-203) and \<open>SetSquare\<close> (lines 206-251) accumulate in a signed
  \<open>__int128\<close>. Overflow of a signed type is undefined behaviour, so the models compute on
  \<open>int\<close> and check the range after every multiplication and addition: \<open>None\<close> is an
  overflow. \<open>c >> 52\<close> is \<open>drop_bit 52\<close>, the masks are \<open>AND\<close>, and an assignment to a
  \<open>uint64_t\<close> is \<open>word_of_int\<close> (reduction modulo \<open>2^64\<close>).
\<close>

definition i128 :: "int \<Rightarrow> int option" where
  "i128 v = (if - (2 ^ 127) \<le> v \<and> v < 2 ^ 127 then Some v else None)"

definition mul128 :: "int \<Rightarrow> int \<Rightarrow> int option" where
  "mul128 u v = i128 (u * v)"

text \<open>\<open>c + X + Y + ...\<close>, added from left to right.\<close>

fun sum128 :: "int \<Rightarrow> int option list \<Rightarrow> int option" where
  "sum128 c [] = Some c"
| "sum128 c (m # ms) = do { v \<leftarrow> m; c' \<leftarrow> i128 (c + v); sum128 c' ms }"

definition lo52 :: "int \<Rightarrow> u64" where
  "lo52 c = word_of_int (c AND 0xFFFFFFFFFFFFF)"

definition lo48 :: "int \<Rightarrow> u64" where
  "lo48 c = word_of_int (c AND 0x0FFFFFFFFFFFF)"

definition SetMult :: "FieldElem \<Rightarrow> FieldElem \<Rightarrow> FieldElem option" where
  "SetMult a b = do {
     c \<leftarrow> mul128 (uint (n0 a)) (uint (n0 b));
     let t0 = lo52 c; let c = drop_bit 52 c;
     c \<leftarrow> sum128 c [mul128 (uint (n0 a)) (uint (n1 b)),
                    mul128 (uint (n1 a)) (uint (n0 b))];
     let t1 = lo52 c; let c = drop_bit 52 c;
     c \<leftarrow> sum128 c [mul128 (uint (n0 a)) (uint (n2 b)),
                    mul128 (uint (n1 a)) (uint (n1 b)),
                    mul128 (uint (n2 a)) (uint (n0 b))];
     let t2 = lo52 c; let c = drop_bit 52 c;
     c \<leftarrow> sum128 c [mul128 (uint (n0 a)) (uint (n3 b)),
                    mul128 (uint (n1 a)) (uint (n2 b)),
                    mul128 (uint (n2 a)) (uint (n1 b)),
                    mul128 (uint (n3 a)) (uint (n0 b))];
     let t3 = lo52 c; let c = drop_bit 52 c;
     c \<leftarrow> sum128 c [mul128 (uint (n0 a)) (uint (n4 b)),
                    mul128 (uint (n1 a)) (uint (n3 b)),
                    mul128 (uint (n2 a)) (uint (n2 b)),
                    mul128 (uint (n3 a)) (uint (n1 b)),
                    mul128 (uint (n4 a)) (uint (n0 b))];
     let t4 = lo52 c; let c = drop_bit 52 c;
     c \<leftarrow> sum128 c [mul128 (uint (n1 a)) (uint (n4 b)),
                    mul128 (uint (n2 a)) (uint (n3 b)),
                    mul128 (uint (n3 a)) (uint (n2 b)),
                    mul128 (uint (n4 a)) (uint (n1 b))];
     let t5 = lo52 c; let c = drop_bit 52 c;
     c \<leftarrow> sum128 c [mul128 (uint (n2 a)) (uint (n4 b)),
                    mul128 (uint (n3 a)) (uint (n3 b)),
                    mul128 (uint (n4 a)) (uint (n2 b))];
     let t6 = lo52 c; let c = drop_bit 52 c;
     c \<leftarrow> sum128 c [mul128 (uint (n3 a)) (uint (n4 b)),
                    mul128 (uint (n4 a)) (uint (n3 b))];
     let t7 = lo52 c; let c = drop_bit 52 c;
     c \<leftarrow> sum128 c [mul128 (uint (n4 a)) (uint (n4 b))];
     let t8 = lo52 c; let c = drop_bit 52 c;
     let t9 = (word_of_int c :: u64);
     c \<leftarrow> sum128 (uint t0) [mul128 (uint t5) 0x1000003D10];
     let t0 = lo52 c; let c = drop_bit 52 c;
     c \<leftarrow> sum128 c [Some (uint t1), mul128 (uint t6) 0x1000003D10];
     let t1 = lo52 c; let c = drop_bit 52 c;
     c \<leftarrow> sum128 c [Some (uint t2), mul128 (uint t7) 0x1000003D10];
     let r2 = lo52 c; let c = drop_bit 52 c;
     c \<leftarrow> sum128 c [Some (uint t3), mul128 (uint t8) 0x1000003D10];
     let r3 = lo52 c; let c = drop_bit 52 c;
     c \<leftarrow> sum128 c [Some (uint t4), mul128 (uint t9) 0x1000003D10];
     let r4 = lo48 c; let c = drop_bit 48 c;
     c \<leftarrow> sum128 (uint t0) [mul128 c 0x1000003D1];
     let r0 = lo52 c; let c = drop_bit 52 c;
     r1 \<leftarrow> sum128 (uint t1) [Some c];
     Some \<lparr>n0 = r0, n1 = word_of_int r1, n2 = r2, n3 = r3, n4 = r4\<rparr>
   }"

text \<open>In \<open>SetSquare\<close> the doubled limb \<open>a.n[i]*2\<close> is a \<open>uint64_t\<close> product and wraps.\<close>

definition SetSquare :: "FieldElem \<Rightarrow> FieldElem option" where
  "SetSquare a = do {
     c \<leftarrow> mul128 (uint (n0 a)) (uint (n0 a));
     let t0 = lo52 c; let c = drop_bit 52 c;
     c \<leftarrow> sum128 c [mul128 (uint (n0 a * 2)) (uint (n1 a))];
     let t1 = lo52 c; let c = drop_bit 52 c;
     c \<leftarrow> sum128 c [mul128 (uint (n0 a * 2)) (uint (n2 a)),
                    mul128 (uint (n1 a)) (uint (n1 a))];
     let t2 = lo52 c; let c = drop_bit 52 c;
     c \<leftarrow> sum128 c [mul128 (uint (n0 a * 2)) (uint (n3 a)),
                    mul128 (uint (n1 a * 2)) (uint (n2 a))];
     let t3 = lo52 c; let c = drop_bit 52 c;
     c \<leftarrow> sum128 c [mul128 (uint (n0 a * 2)) (uint (n4 a)),
                    mul128 (uint (n1 a * 2)) (uint (n3 a)),
                    mul128 (uint (n2 a)) (uint (n2 a))];
     let t4 = lo52 c; let c = drop_bit 52 c;
     c \<leftarrow> sum128 c [mul128 (uint (n1 a * 2)) (uint (n4 a)),
                    mul128 (uint (n2 a * 2)) (uint (n3 a))];
     let t5 = lo52 c; let c = drop_bit 52 c;
     c \<leftarrow> sum128 c [mul128 (uint (n2 a * 2)) (uint (n4 a)),
                    mul128 (uint (n3 a)) (uint (n3 a))];
     let t6 = lo52 c; let c = drop_bit 52 c;
     c \<leftarrow> sum128 c [mul128 (uint (n3 a * 2)) (uint (n4 a))];
     let t7 = lo52 c; let c = drop_bit 52 c;
     c \<leftarrow> sum128 c [mul128 (uint (n4 a)) (uint (n4 a))];
     let t8 = lo52 c; let c = drop_bit 52 c;
     let t9 = (word_of_int c :: u64);
     c \<leftarrow> sum128 (uint t0) [mul128 (uint t5) 0x1000003D10];
     let t0 = lo52 c; let c = drop_bit 52 c;
     c \<leftarrow> sum128 c [Some (uint t1), mul128 (uint t6) 0x1000003D10];
     let t1 = lo52 c; let c = drop_bit 52 c;
     c \<leftarrow> sum128 c [Some (uint t2), mul128 (uint t7) 0x1000003D10];
     let r2 = lo52 c; let c = drop_bit 52 c;
     c \<leftarrow> sum128 c [Some (uint t3), mul128 (uint t8) 0x1000003D10];
     let r3 = lo52 c; let c = drop_bit 52 c;
     c \<leftarrow> sum128 c [Some (uint t4), mul128 (uint t9) 0x1000003D10];
     let r4 = lo48 c; let c = drop_bit 48 c;
     c \<leftarrow> sum128 (uint t0) [mul128 c 0x1000003D1];
     let r0 = lo52 c; let c = drop_bit 52 c;
     r1 \<leftarrow> sum128 (uint t1) [Some c];
     Some \<lparr>n0 = r0, n1 = word_of_int r1, n2 = r2, n3 = r3, n4 = r4\<rparr>
   }"

section \<open>Exponentiation chains\<close>

text \<open>The inner loop \<open>for (int j=0; j<10; j++) x.SetSquare(x);\<close> and the outer loop
  \<open>for (int i=0; i<k; i++) { <inner loop> x.SetMult(x,m); }\<close> of lines 273-283 and 312-322.\<close>

fun square_n :: "nat \<Rightarrow> FieldElem \<Rightarrow> FieldElem option" where
  "square_n 0 x = Some x"
| "square_n (Suc j) x = do { x \<leftarrow> SetSquare x; square_n j x }"

fun square_mult_n :: "nat \<Rightarrow> FieldElem \<Rightarrow> FieldElem \<Rightarrow> FieldElem option" where
  "square_mult_n 0 m x = Some x"
| "square_mult_n (Suc i) m x =
     do { x \<leftarrow> square_n 10 x; x \<leftarrow> SetMult x m; square_mult_n i m x }"

text \<open>\<open>SetSquareRoot\<close>, lines 254-285.\<close>

definition SetSquareRoot :: "FieldElem \<Rightarrow> FieldElem option" where
  "SetSquareRoot a = do {
     a2 \<leftarrow> SetSquare a;
     a3 \<leftarrow> SetMult a2 a;
     a6 \<leftarrow> SetSquare a3;
     a12 \<leftarrow> SetSquare a6;
     a15 \<leftarrow> SetMult a12 a3;
     a30 \<leftarrow> SetSquare a15;
     a60 \<leftarrow> SetSquare a30;
     a120 \<leftarrow> SetSquare a60;
     a240 \<leftarrow> SetSquare a120;
     a255 \<leftarrow> SetMult a240 a15;
     a510 \<leftarrow> SetSquare a255;
     a750 \<leftarrow> SetMult a510 a240;
     a780 \<leftarrow> SetMult a750 a30;
     a1020 \<leftarrow> SetSquare a510;
     a1022 \<leftarrow> SetMult a1020 a2;
     a1023 \<leftarrow> SetMult a1022 a;
     let x = a15;
     x \<leftarrow> square_mult_n 21 a1023 x;
     x \<leftarrow> square_n 10 x;
     x \<leftarrow> SetMult x a1022;
     x \<leftarrow> square_mult_n 2 a1023 x;
     x \<leftarrow> square_n 10 x;
     SetMult x a780
   }"

text \<open>\<open>IsOdd\<close>, lines 287-290.\<close>

definition IsOdd :: "FieldElem \<Rightarrow> bool \<times> FieldElem" where
  "IsOdd a = (let a = Normalize a in (n0 a AND 1 \<noteq> 0, a))"

text \<open>\<open>SetInverse\<close>, lines 293-324. Line 297 reads \<open>a4.SetSquare(a)\<close>.\<close>

definition SetInverse :: "FieldElem \<Rightarrow> FieldElem option" where
  "SetInverse a = do {
     a2 \<leftarrow> SetSquare a;
     a3 \<leftarrow> SetMult a2 a;
     a4 \<leftarrow> SetSquare a;
     a5 \<leftarrow> SetMult a4 a;
     a10 \<leftarrow> SetSquare a5;
     a11 \<leftarrow> SetMult a10 a;
     a21 \<leftarrow> SetMult a11 a10;
     a42 \<leftarrow> SetSquare a21;
     a45 \<leftarrow> SetMult a42 a3;
     a63 \<leftarrow> SetMult a42 a21;
     a126 \<leftarrow> SetSquare a63;
     a252 \<leftarrow> SetSquare a126;
     a504 \<leftarrow> SetSquare a252;
     a1008 \<leftarrow> SetSquare a504;
     a1019 \<leftarrow> SetMult a1008 a11;
     a1023 \<leftarrow> SetMult a1019 a4;
     let x = a63;
     x \<leftarrow> square_mult_n 21 a1023 x;
     x \<leftarrow> square_n 10 x;
     x \<leftarrow> SetMult x a1019;
     x \<leftarrow> square_mult_n 2 a1023 x;
     x \<leftarrow> square_n 10 x;
     SetMult x a45
   }"

section \<open>Hexadecimal text\<close>

text \<open>\<open>ToString\<close>, lines 326-336: \<open>Get\<close> normalises the receiver, then the loop runs
  \<open>i\<close> from 63 down to 0 and appends one character of \<open>"0123456789ABCDEF"\<close> each time.\<close>

definition hexchars :: string where
  "hexchars = ''0123456789ABCDEF''"

definition ToString :: "FieldElem \<Rightarrow> string \<times> FieldElem" where
  "ToString a =
    (case Get a of (tmp, a') \<Rightarrow>
      (map (\<lambda>i. hexchars ! unat (drop_bit ((i mod 16) * 4) (tmp ! (i div 16)) AND 0xF))
           (rev [0..<64]), a'))"

text \<open>\<open>SetHex\<close>, lines 338-361, with its table \<open>cvt\<close> (lines 340-355), indexed by the
  character read as \<open>unsigned char\<close>.\<close>

definition cvt :: "int list" where
  "cvt = [
      0, 0, 0, 0, 0, 0, 0,0,0,0,0,0,0,0,0,0,
      0, 0, 0, 0, 0, 0, 0,0,0,0,0,0,0,0,0,0,
      0, 0, 0, 0, 0, 0, 0,0,0,0,0,0,0,0,0,0,
      0, 1, 2, 3, 4, 5, 6,7,8,9,0,0,0,0,0,0,
      0,10,11,12,13,14,15,0,0,0,0,0,0,0,0,0,
      0, 0, 0, 0, 0, 0, 0,0,0,0,0,0,0,0,0,0,
      0,10,11,12,13,14,15,0,0,0,0,0,0,0,0,0,
      0, 0, 0, 0, 0, 0, 0,0,0,0,0,0,0,0,0,0,
      0, 0, 0, 0, 0, 0, 0,0,0,0,0,0,0,0,0,0,
      0, 0, 0, 0, 0, 0, 0,0,0,0,0,0,0,0,0,0,
      0, 0, 0, 0, 0, 0, 0,0,0,0,0,0,0,0,0,0,
      0, 0, 0, 0, 0, 0, 0,0,0,0,0,0,0,0,0,0,
      0, 0, 0, 0, 0, 0, 0,0,0,0,0,0,0,0,0,0,
      0, 0, 0, 0, 0, 0, 0,0,0,0,0,0,0,0,0,0,
      0, 0, 0, 0, 0, 0, 0,0,0,0,0,0,0,0,0,0,
      0, 0, 0, 0, 0, 0, 0,0,0,0,0,0,0,0,0,0]"

definition SetHex_step :: "string \<Rightarrow> nat \<Rightarrow> u64 list \<Rightarrow> u64 list" where
  "SetHex_step str i tmp =
    (if length str > 63 - i
     then tmp[i div 16 := tmp ! (i div 16)
                OR push_bit ((i mod 16) * 4) (word_of_int (cvt ! of_char (str ! (63 - i))))]
     else tmp)"

definition SetHex :: "string \<Rightarrow> FieldElem" where
  "SetHex str = Set (fold (SetHex_step str) [0..<64] [0, 0, 0, 0])"

section \<open>Group elements\<close>

text \<open>
  \<open>GroupElem<F>\<close> (lines 366-409) has the fields \<open>fInfinity\<close>, \<open>x\<close>, \<open>y\<close>;
  \<open>GroupElemJac<F>\<close> (lines 411-581) derives from it and adds \<open>z\<close>. The template is only
  instantiated with \<open>F = FieldElem\<close>. The coordinate fields are called \<open>px\<close>, \<open>py\<close>, \<open>pz\<close>
  here, since a record field is a constant and \<open>x\<close>, \<open>y\<close>, \<open>z\<close> are wanted as variables.
\<close>

record GroupElem =
  fInfinity :: bool
  px :: FieldElem
  py :: FieldElem

record GroupElemJac = GroupElem +
  pz :: FieldElem

text \<open>The default constructors, lines 381-383 and 417: the members \<open>x\<close>, \<open>y\<close> are
  default-constructed, which is \<open>FieldElem(0)\<close>.\<close>

definition GroupElem_inf :: GroupElem where
  "GroupElem_inf = \<lparr>fInfinity = True, px = FieldElem_int 0, py = FieldElem_int 0\<rparr>"

definition GroupElemJac_inf :: GroupElemJac where
  "GroupElemJac_inf =
     \<lparr>fInfinity = True, px = FieldElem_int 0, py = FieldElem_int 0, pz = FieldElem_int 1\<rparr>"

text \<open>The constructor from affine coordinates, line 420.\<close>

definition GroupElemJac_xy :: "FieldElem \<Rightarrow> FieldElem \<Rightarrow> GroupElemJac" where
  "GroupElemJac_xy xin yin = \<lparr>fInfinity = False, px = xin, py = yin, pz = FieldElem_int 1\<rparr>"

text \<open>\<open>IsValid\<close>, lines 423-437. The receiver is not changed: \<open>operator==\<close> normalises the
  two locals.\<close>

definition IsValid :: "GroupElemJac \<Rightarrow> bool option" where
  "IsValid t =
    (if fInfinity t then Some False
     else do {
       y2 \<leftarrow> SetSquare (py t);
       x3 \<leftarrow> SetSquare (px t); x3 \<leftarrow> SetMult x3 (px t);
       z2 \<leftarrow> SetSquare (pz t);
       z6 \<leftarrow> SetSquare z2; z6 \<leftarrow> SetMult z6 z2;
       let z6 = scale z6 7;
       let x3 = add x3 z6;
       Some (fst (equals y2 x3))
     })"


text \<open>
  \<open>SetDouble\<close>, lines 467-494. The first argument is the receiver \<open>*this\<close> before the
  call, the second the argument \<open>p\<close>, a different object; the result is the receiver after
  the call. Line 468 tests \<open>this->y.IsZero()\<close>, which normalises the receiver's \<open>y\<close>, and
  is not evaluated when \<open>p.fInfinity\<close> holds. No line of the function clears
  \<open>this->fInfinity\<close>.
\<close>

definition SetDouble :: "GroupElemJac \<Rightarrow> GroupElemJac \<Rightarrow> GroupElemJac option" where
  "SetDouble this p =
    (if fInfinity p then Some (this\<lparr>fInfinity := True\<rparr>)
     else case IsZero (py this) of (zero, y') \<Rightarrow>
       if zero then Some (this\<lparr>fInfinity := True, py := y'\<rparr>)
       else do {
         z \<leftarrow> SetMult (py p) (pz p);
         let z = scale z 2;
         t1 \<leftarrow> SetSquare (px p);
         let t1 = scale t1 3;
         t2 \<leftarrow> SetSquare t1;
         t3 \<leftarrow> SetSquare (py p);
         let t3 = scale t3 2;
         t4 \<leftarrow> SetSquare t3;
         let t4 = scale t4 2;
         t3 \<leftarrow> SetMult (px p) t3;
         let x = t3;
         let x = scale x 4;
         let x = SetNeg x 4;
         let x = add x t2;
         let t2 = SetNeg t2 1;
         let t3 = scale t3 6;
         let t3 = add t3 t2;
         y \<leftarrow> SetMult t1 t3;
         let t2 = SetNeg t4 2;
         let y = add y t2;
         Some (this\<lparr>px := x, py := y, pz := z\<rparr>)
       })"

text \<open>
  \<open>SetAdd\<close> of two Jacobian points, lines 497-533; receiver, \<open>p\<close> and \<open>q\<close> are three
  objects. \<open>operator==\<close> leaves its operands normalised, so \<open>u1\<close>, \<open>u2\<close> are normalised
  where lines 522 and 528 read them.
\<close>

definition SetAdd :: "GroupElemJac \<Rightarrow> GroupElemJac \<Rightarrow> GroupElemJac \<Rightarrow> GroupElemJac option"
  where
  "SetAdd this p q =
    (if fInfinity p then Some q
     else if fInfinity q then Some p
     else do {
       let this = this\<lparr>fInfinity := False\<rparr>;
       z22 \<leftarrow> SetSquare (pz q);
       z12 \<leftarrow> SetSquare (pz p);
       u1 \<leftarrow> SetMult (px p) z22;
       u2 \<leftarrow> SetMult (px q) z12;
       s1 \<leftarrow> SetMult (py p) z22;
       s1 \<leftarrow> SetMult s1 (pz q);
       s2 \<leftarrow> SetMult (py q) z12;
       s2 \<leftarrow> SetMult s2 (pz p);
       case equals u1 u2 of (eq_u, u1, u2) \<Rightarrow>
         if eq_u then
           (case equals s1 s2 of (eq_s, s1, s2) \<Rightarrow>
              if eq_s then SetDouble this p else Some (this\<lparr>fInfinity := True\<rparr>))
         else do {
           let h = add (SetNeg u1 1) u2;
           let r = add (SetNeg s1 1) s2;
           r2 \<leftarrow> SetSquare r;
           h2 \<leftarrow> SetSquare h;
           h3 \<leftarrow> SetMult h h2;
           z \<leftarrow> SetMult (pz p) (pz q);
           z \<leftarrow> SetMult z h;
           t \<leftarrow> SetMult u1 h2;
           let x = add (SetNeg (add (scale t 2) h3) 3) r2;
           let y = add (SetNeg x 5) t;
           y \<leftarrow> SetMult y r;
           h3 \<leftarrow> SetMult h3 s1;
           let h3 = SetNeg h3 1;
           let y = add y h3;
           Some (this\<lparr>px := x, py := y, pz := z\<rparr>)
         }
     })"

text \<open>\<open>SetAdd\<close> of a Jacobian and an affine point, lines 536-574.\<close>

definition SetAdd_affine :: "GroupElemJac \<Rightarrow> GroupElemJac \<Rightarrow> GroupElem \<Rightarrow> GroupElemJac option"
  where
  "SetAdd_affine this p q =
    (if fInfinity p
     then Some (this\<lparr>px := px q, py := py q, fInfinity := fInfinity q, pz := FieldElem_int 1\<rparr>)
     else if fInfinity q then Some p
     else do {
       let this = this\<lparr>fInfinity := False\<rparr>;
       z12 \<leftarrow> SetSquare (pz p);
       let u1 = Normalize (px p);
       u2 \<leftarrow> SetMult (px q) z12;
       let s1 = Normalize (py p);
       s2 \<leftarrow> SetMult (py q) z12;
       s2 \<leftarrow> SetMult s2 (pz p);
       case equals u1 u2 of (eq_u, u1, u2) \<Rightarrow>
         if eq_u then
           (case equals s1 s2 of (eq_s, s1, s2) \<Rightarrow>
              if eq_s then SetDouble this p else Some (this\<lparr>fInfinity := True\<rparr>))
         else do {
           let h = add (SetNeg u1 1) u2;
           let r = add (SetNeg s1 1) s2;
           r2 \<leftarrow> SetSquare r;
           h2 \<leftarrow> SetSquare h;
           h3 \<leftarrow> SetMult h h2;
           let z = pz p;
           z \<leftarrow> SetMult z h;
           t \<leftarrow> SetMult u1 h2;
           let x = add (SetNeg (add (scale t 2) h3) 3) r2;
           let y = add (SetNeg x 5) t;
           y \<leftarrow> SetMult y r;
           h3 \<leftarrow> SetMult h3 s1;
           let h3 = SetNeg h3 1;
           let y = add y h3;
           Some (this\<lparr>px := x, py := y, pz := z\<rparr>)
         }
     })"

section \<open>Calls with the receiver as first argument\<close>

text \<open>
  The three definitions above take the receiver and the argument \<open>p\<close> as distinct objects.
  \<open>main\<close> (line 599) calls \<open>x1.SetAdd(x1,g2a)\<close>: \<open>p\<close> is \<open>*this\<close>. Then, in \<open>SetDouble\<close>,
  the test \<open>this->y.IsZero()\<close> of line 468 is a test of \<open>p.y\<close> and normalises it in place,
  so lines 474 and 479 read the normalised \<open>y\<close>; each of \<open>z\<close>, \<open>x\<close>, \<open>y\<close> is written (lines
  474, 484, 491) after its last read. The one argument of \<open>SetDouble_self\<close> is the object
  before the call.
\<close>

definition SetDouble_self :: "GroupElemJac \<Rightarrow> GroupElemJac option" where
  "SetDouble_self t =
    (if fInfinity t then Some (t\<lparr>fInfinity := True\<rparr>)
     else case IsZero (py t) of (zero, y') \<Rightarrow>
       if zero then Some (t\<lparr>fInfinity := True, py := y'\<rparr>)
       else do {
         z \<leftarrow> SetMult y' (pz t);
         let z = scale z 2;
         t1 \<leftarrow> SetSquare (px t);
         let t1 = scale t1 3;
         t2 \<leftarrow> SetSquare t1;
         t3 \<leftarrow> SetSquare y';
         let t3 = scale t3 2;
         t4 \<leftarrow> SetSquare t3;
         let t4 = scale t4 2;
         t3 \<leftarrow> SetMult (px t) t3;
         let x = t3;
         let x = scale x 4;
         let x = SetNeg x 4;
         let x = add x t2;
         let t2 = SetNeg t2 1;
         let t3 = scale t3 6;
         let t3 = add t3 t2;
         y \<leftarrow> SetMult t1 t3;
         let t2 = SetNeg t4 2;
         let y = add y t2;
         Some (t\<lparr>px := x, py := y, pz := z\<rparr>)
       })"

text \<open>
  \<open>r.SetAdd(r,q)\<close>, with \<open>q\<close> another object. \<open>this->fInfinity = false\<close> changes nothing,
  \<open>p\<close> being finite where it is reached; the locals \<open>z22\<close>, ..., \<open>s2\<close> are computed before
  any member is written, and lines 527-532 write \<open>z\<close>, \<open>x\<close>, \<open>y\<close> and read none of \<open>p\<close>'s
  members afterwards. The doubling branch is the call \<open>SetDouble(p)\<close> on \<open>p\<close> itself.
\<close>

definition SetAdd_self :: "GroupElemJac \<Rightarrow> GroupElemJac \<Rightarrow> GroupElemJac option" where
  "SetAdd_self p q =
    (if fInfinity p then Some q
     else if fInfinity q then Some p
     else do {
       z22 \<leftarrow> SetSquare (pz q);
       z12 \<leftarrow> SetSquare (pz p);
       u1 \<leftarrow> SetMult (px p) z22;
       u2 \<leftarrow> SetMult (px q) z12;
       s1 \<leftarrow> SetMult (py p) z22;
       s1 \<leftarrow> SetMult s1 (pz q);
       s2 \<leftarrow> SetMult (py q) z12;
       s2 \<leftarrow> SetMult s2 (pz p);
       case equals u1 u2 of (eq_u, u1, u2) \<Rightarrow>
         if eq_u then
           (case equals s1 s2 of (eq_s, s1, s2) \<Rightarrow>
              if eq_s then SetDouble_self p else Some (p\<lparr>fInfinity := True\<rparr>))
         else do {
           let h = add (SetNeg u1 1) u2;
           let r = add (SetNeg s1 1) s2;
           r2 \<leftarrow> SetSquare r;
           h2 \<leftarrow> SetSquare h;
           h3 \<leftarrow> SetMult h h2;
           z \<leftarrow> SetMult (pz p) (pz q);
           z \<leftarrow> SetMult z h;
           t \<leftarrow> SetMult u1 h2;
           let x = add (SetNeg (add (scale t 2) h3) 3) r2;
           let y = add (SetNeg x 5) t;
           y \<leftarrow> SetMult y r;
           h3 \<leftarrow> SetMult h3 s1;
           let h3 = SetNeg h3 1;
           let y = add y h3;
           Some (p\<lparr>px := x, py := y, pz := z\<rparr>)
         }
     })"

definition SetAdd_affine_self :: "GroupElemJac \<Rightarrow> GroupElem \<Rightarrow> GroupElemJac option" where
  "SetAdd_affine_self p q =
    (if fInfinity p
     then Some (p\<lparr>px := px q, py := py q, fInfinity := fInfinity q, pz := FieldElem_int 1\<rparr>)
     else if fInfinity q then Some p
     else do {
       z12 \<leftarrow> SetSquare (pz p);
       let u1 = Normalize (px p);
       u2 \<leftarrow> SetMult (px q) z12;
       let s1 = Normalize (py p);
       s2 \<leftarrow> SetMult (py q) z12;
       s2 \<leftarrow> SetMult s2 (pz p);
       case equals u1 u2 of (eq_u, u1, u2) \<Rightarrow>
         if eq_u then
           (case equals s1 s2 of (eq_s, s1, s2) \<Rightarrow>
              if eq_s then SetDouble_self p else Some (p\<lparr>fInfinity := True\<rparr>))
         else do {
           let h = add (SetNeg u1 1) u2;
           let r = add (SetNeg s1 1) s2;
           r2 \<leftarrow> SetSquare r;
           h2 \<leftarrow> SetSquare h;
           h3 \<leftarrow> SetMult h h2;
           let z = pz p;
           z \<leftarrow> SetMult z h;
           t \<leftarrow> SetMult u1 h2;
           let x = add (SetNeg (add (scale t 2) h3) 3) r2;
           let y = add (SetNeg x 5) t;
           y \<leftarrow> SetMult y r;
           h3 \<leftarrow> SetMult h3 s1;
           let h3 = SetNeg h3 1;
           let y = add y h3;
           Some (p\<lparr>px := x, py := y, pz := z\<rparr>)
         }
     })"
section \<open>Auxiliary notions for the proofs\<close>

text \<open>What \<open>SetMult\<close> and \<open>SetSquare\<close> leave in the limbs: limbs 0, 2, 3 below \<open>2^52\<close>,
  limb 4 below \<open>2^48\<close>, and limb 1, which receives the last carry unmasked (lines 199 and
  247), below \<open>2^52 + 2^25\<close>.\<close>

definition mult_out :: "FieldElem \<Rightarrow> bool" where
  "mult_out r \<longleftrightarrow> uint (n0 r) < 2 ^ 52 \<and> uint (n1 r) < 2 ^ 52 + 2 ^ 25 \<and> uint (n2 r) < 2 ^ 52
     \<and> uint (n3 r) < 2 ^ 52 \<and> uint (n4 r) < 2 ^ 48"

text \<open>What multiplication and squaring need of an operand: limbs 0..3 below \<open>2^56\<close>, limb 4
  below \<open>2^52\<close>. Magnitude 8 implies it.\<close>

definition operand :: "FieldElem \<Rightarrow> bool" where
  "operand a \<longleftrightarrow> uint (n0 a) < 2 ^ 56 \<and> uint (n1 a) < 2 ^ 56 \<and> uint (n2 a) < 2 ^ 56
     \<and> uint (n3 a) < 2 ^ 56 \<and> uint (n4 a) < 2 ^ 52"

text \<open>The common shape of lines 152-199 and 210-247: the nine column sums of the schoolbook
  product are the parameters, everything else is the text of \<open>SetMult\<close>.\<close>

definition mul_core :: "int option list \<Rightarrow> int option list \<Rightarrow> int option list \<Rightarrow> int option list
   \<Rightarrow> int option list \<Rightarrow> int option list \<Rightarrow> int option list \<Rightarrow> int option list
   \<Rightarrow> int option list \<Rightarrow> FieldElem option" where
  "mul_core k0 k1 k2 k3 k4 k5 k6 k7 k8 = do {
     c \<leftarrow> sum128 0 k0;
     let t0 = lo52 c; let c = drop_bit 52 c;
     c \<leftarrow> sum128 c k1;
     let t1 = lo52 c; let c = drop_bit 52 c;
     c \<leftarrow> sum128 c k2;
     let t2 = lo52 c; let c = drop_bit 52 c;
     c \<leftarrow> sum128 c k3;
     let t3 = lo52 c; let c = drop_bit 52 c;
     c \<leftarrow> sum128 c k4;
     let t4 = lo52 c; let c = drop_bit 52 c;
     c \<leftarrow> sum128 c k5;
     let t5 = lo52 c; let c = drop_bit 52 c;
     c \<leftarrow> sum128 c k6;
     let t6 = lo52 c; let c = drop_bit 52 c;
     c \<leftarrow> sum128 c k7;
     let t7 = lo52 c; let c = drop_bit 52 c;
     c \<leftarrow> sum128 c k8;
     let t8 = lo52 c; let c = drop_bit 52 c;
     let t9 = (word_of_int c :: u64);
     c \<leftarrow> sum128 (uint t0) [mul128 (uint t5) 0x1000003D10];
     let t0 = lo52 c; let c = drop_bit 52 c;
     c \<leftarrow> sum128 c [Some (uint t1), mul128 (uint t6) 0x1000003D10];
     let t1 = lo52 c; let c = drop_bit 52 c;
     c \<leftarrow> sum128 c [Some (uint t2), mul128 (uint t7) 0x1000003D10];
     let r2 = lo52 c; let c = drop_bit 52 c;
     c \<leftarrow> sum128 c [Some (uint t3), mul128 (uint t8) 0x1000003D10];
     let r3 = lo52 c; let c = drop_bit 52 c;
     c \<leftarrow> sum128 c [Some (uint t4), mul128 (uint t9) 0x1000003D10];
     let r4 = lo48 c; let c = drop_bit 48 c;
     c \<leftarrow> sum128 (uint t0) [mul128 c 0x1000003D1];
     let r0 = lo52 c; let c = drop_bit 52 c;
     r1 \<leftarrow> sum128 (uint t1) [Some c];
     Some \<lparr>n0 = r0, n1 = word_of_int r1, n2 = r2, n3 = r3, n4 = r4\<rparr>
   }"


text \<open>\<open>pw a e x\<close>: \<open>x\<close> is fit to be an operand and stands for \<open>a^e\<close> modulo \<open>p\<close>.
  \<open>chain_exp i k e\<close> is the exponent after \<open>i\<close> rounds of "square ten times, multiply by
  \<open>a^k\<close>", starting from \<open>a^e\<close>.\<close>

definition pw :: "FieldElem \<Rightarrow> nat \<Rightarrow> FieldElem \<Rightarrow> bool" where
  "pw a e x \<longleftrightarrow> operand x \<and> val x mod P = val a ^ e mod P"

fun chain_exp :: "nat \<Rightarrow> nat \<Rightarrow> nat \<Rightarrow> nat" where
  "chain_exp 0 k e = e"
| "chain_exp (Suc i) k e = chain_exp i k (e * 1024 + k)"

text \<open>The stages of \<open>Normalize\<close>, each the text of the function: the test of line 41, the
  first carry pass (lines 42-52), the second (lines 54-63), the final subtraction (lines
  68-74). \<open>limbs52\<close>: limbs 0..3 below \<open>2^52\<close>, limb 4 below \<open>2^48\<close>.\<close>

definition limbs52 :: "FieldElem \<Rightarrow> bool" where
  "limbs52 a \<longleftrightarrow> uint (n0 a) < 2 ^ 52 \<and> uint (n1 a) < 2 ^ 52 \<and> uint (n2 a) < 2 ^ 52
     \<and> uint (n3 a) < 2 ^ 52 \<and> uint (n4 a) < 2 ^ 48"

definition exceeds :: "FieldElem \<Rightarrow> bool" where
  "exceeds a \<longleftrightarrow> n0 a > 0xFFFFFFFFFFFFF \<or> n1 a > 0xFFFFFFFFFFFFF \<or> n2 a > 0xFFFFFFFFFFFFF
           \<or> n3 a > 0xFFFFFFFFFFFFF \<or> n4 a > 0xFFFFFFFFFFFF"

definition carry1 :: "FieldElem \<Rightarrow> FieldElem \<times> u64" where
  "carry1 a =
         (let c = n0 a;
              t0 = c AND 0xFFFFFFFFFFFFF;
              c = drop_bit 52 c + n1 a;
              t1 = c AND 0xFFFFFFFFFFFFF;
              c = drop_bit 52 c + n2 a;
              t2 = c AND 0xFFFFFFFFFFFFF;
              c = drop_bit 52 c + n3 a;
              t3 = c AND 0xFFFFFFFFFFFFF;
              c = drop_bit 52 c + n4 a;
              t4 = c AND 0x0FFFFFFFFFFFF;
              c = drop_bit 48 c
          in (\<lparr>n0 = t0, n1 = t1, n2 = t2, n3 = t3, n4 = t4\<rparr>, c))"

definition carry2 :: "FieldElem \<Rightarrow> u64 \<Rightarrow> FieldElem" where
  "carry2 t c =
              (let c = c * 0x1000003D1 + n0 t;
                   t0 = c AND 0xFFFFFFFFFFFFF;
                   c = drop_bit 52 c + n1 t;
                   t1 = c AND 0xFFFFFFFFFFFFF;
                   c = drop_bit 52 c + n2 t;
                   t2 = c AND 0xFFFFFFFFFFFFF;
                   c = drop_bit 52 c + n3 t;
                   t3 = c AND 0xFFFFFFFFFFFFF;
                   c = drop_bit 52 c + n4 t;
                   t4 = c AND 0x0FFFFFFFFFFFF
               in \<lparr>n0 = t0, n1 = t1, n2 = t2, n3 = t3, n4 = t4\<rparr>)"

definition final_sub :: "FieldElem \<Rightarrow> FieldElem" where
  "final_sub a' =
     (if n4 a' = 0xFFFFFFFFFFFF \<and> n3 a' = 0xFFFFFFFFFFFFF \<and> n2 a' = 0xFFFFFFFFFFFFF
           \<and> n1 a' = 0xFFFFFFFFFFFFF \<and> n0 a' \<ge> 0xFFFFEFFFFFC2F
        then \<lparr>n0 = n0 a' - 0xFFFFEFFFFFC2F, n1 = 0, n2 = 0, n3 = 0, n4 = 0\<rparr>
        else a')"

text \<open>Limb bounds that add up: \<open>lim k\<close> is \<open>k\<close> times the bound of a product. \<open>SetNeg\<close>,
  \<open>operator+=\<close> and \<open>operator*=\<close> move \<open>k\<close> as the source's magnitude comments say.\<close>

definition lim :: "int \<Rightarrow> FieldElem \<Rightarrow> bool" where
  "lim k a \<longleftrightarrow> uint (n0 a) \<le> k * (2 ^ 52 + 2 ^ 25) \<and> uint (n1 a) \<le> k * (2 ^ 52 + 2 ^ 25)
     \<and> uint (n2 a) \<le> k * (2 ^ 52 + 2 ^ 25) \<and> uint (n3 a) \<le> k * (2 ^ 52 + 2 ^ 25)
     \<and> uint (n4 a) \<le> k * 2 ^ 48"

text \<open>The inputs on which \<open>Normalize\<close> loses nothing: after the top overflow is folded into
  limb 0 the value is below \<open>2^256\<close>, so the carry of line 64 is zero.\<close>

definition carry_free :: "FieldElem \<Rightarrow> bool" where
  "carry_free a \<longleftrightarrow> uint (n0 a) < 2 ^ 60 \<and> uint (n1 a) < 2 ^ 60 \<and> uint (n2 a) < 2 ^ 60
     \<and> uint (n3 a) < 2 ^ 60 \<and> uint (n4 a) < 2 ^ 60
     \<and> val a mod 2 ^ 256 + (val a div 2 ^ 256) * 0x1000003D1 < 2 ^ 256"

text \<open>\<open>rep k E a\<close>: the field element \<open>a\<close> stands for the integer \<open>E\<close> modulo \<open>p\<close> within
  the bounds \<open>lim k\<close>; \<open>opd E a\<close>: the same for an operand of a multiplication.\<close>

definition rep :: "int \<Rightarrow> int \<Rightarrow> FieldElem \<Rightarrow> bool" where
  "rep k E a \<longleftrightarrow> lim k a \<and> val a mod P = E mod P"

definition opd :: "int \<Rightarrow> FieldElem \<Rightarrow> bool" where
  "opd E a \<longleftrightarrow> operand a \<and> val a mod P = E mod P"

text \<open>The doubling and addition formulas as polynomials over the integers.\<close>

definition dbl_x :: "int \<Rightarrow> int \<Rightarrow> int" where
  "dbl_x X Y = 9 * X ^ 4 - 8 * X * Y ^ 2"

definition dbl_y :: "int \<Rightarrow> int \<Rightarrow> int" where
  "dbl_y X Y = 36 * X ^ 3 * Y ^ 2 - 27 * X ^ 6 - 8 * Y ^ 4"

definition dbl_z :: "int \<Rightarrow> int \<Rightarrow> int" where
  "dbl_z Y Z = 2 * Y * Z"

definition add_x :: "int \<Rightarrow> int \<Rightarrow> int \<Rightarrow> int \<Rightarrow> int" where
  "add_x U1 U2 S1 S2 = (S2 - S1) ^ 2 - (U2 - U1) ^ 3 - 2 * U1 * (U2 - U1) ^ 2"

definition add_y :: "int \<Rightarrow> int \<Rightarrow> int \<Rightarrow> int \<Rightarrow> int" where
  "add_y U1 U2 S1 S2 =
     (S2 - S1) * (U1 * (U2 - U1) ^ 2 - add_x U1 U2 S1 S2) - S1 * (U2 - U1) ^ 3"

text \<open>The curve equation in Jacobian coordinates, \<open>y^2 = x^3 + 7 z^6\<close> modulo \<open>p\<close>, read on
  the integers the coordinates stand for.\<close>

definition on_curve :: "GroupElemJac \<Rightarrow> bool" where
  "on_curve t \<longleftrightarrow>
     val (py t) ^ 2 mod P = (val (px t) ^ 3 + 7 * val (pz t) ^ 6) mod P"

text \<open>The two sides of the comparison in \<open>IsValid\<close>, lines 430-436, before
  \<open>operator==\<close> normalises them.\<close>

definition curve_sides :: "GroupElemJac \<Rightarrow> (FieldElem \<times> FieldElem) option" where
  "curve_sides t = do {
     y2 \<leftarrow> SetSquare (py t);
     x3 \<leftarrow> SetSquare (px t); x3 \<leftarrow> SetMult x3 (px t);
     z2 \<leftarrow> SetSquare (pz t);
     z6 \<leftarrow> SetSquare z2; z6 \<leftarrow> SetMult z6 z2;
     Some (y2, add x3 (scale z6 7))
   }"

text \<open>For the hexadecimal text: the 256-bit number that four words stand for, word 0
  lowest (the argument of \<open>Set\<close>, the result of \<open>Get\<close>); nibble \<open>i\<close> of such an array as
  line 331 reads it; and the value the table \<open>cvt\<close> gives character \<open>k\<close> of a string, 0
  beyond its end.\<close>

definition word256 :: "u64 list \<Rightarrow> int" where
  "word256 ws = uint (ws ! 0) + 2 ^ 64 * uint (ws ! 1) + 2 ^ 128 * uint (ws ! 2)
                + 2 ^ 192 * uint (ws ! 3)"

definition nib :: "u64 list \<Rightarrow> nat \<Rightarrow> u64" where
  "nib ws i = drop_bit ((i mod 16) * 4) (ws ! (i div 16)) AND 0xF"

definition digit :: "string \<Rightarrow> nat \<Rightarrow> int" where
  "digit s k = (if k < length s then cvt ! of_char (s ! k) else 0)"
section \<open>Concrete operands\<close>

text \<open>A representation within the magnitude-1 bounds whose value is \<open>2^257 - 1\<close>.\<close>

definition carry_input :: FieldElem where
  "carry_input = \<lparr>n0 = 0xFFFFFFFFFFFFF, n1 = 0xFFFFFFFFFFFFF, n2 = 0xFFFFFFFFFFFFF,
                   n3 = 0xFFFFFFFFFFFFF, n4 = 0x1FFFFFFFFFFFF\<rparr>"

text \<open>The element \<open>Set\<close> makes of four words of ones, added to itself with \<open>operator+=\<close>.\<close>

definition ones_twice :: FieldElem where
  "ones_twice =
     add (Set [0xFFFFFFFFFFFFFFFF, 0xFFFFFFFFFFFFFFFF, 0xFFFFFFFFFFFFFFFF, 0xFFFFFFFFFFFFFFFF])
         (Set [0xFFFFFFFFFFFFFFFF, 0xFFFFFFFFFFFFFFFF, 0xFFFFFFFFFFFFFFFF, 0xFFFFFFFFFFFFFFFF])"

text \<open>A representation whose limb 1 sits on the magnitude-1 bound \<open>2^53 - 1\<close>.\<close>

definition edge_input :: FieldElem where
  "edge_input = \<lparr>n0 = 0, n1 = 0x1FFFFFFFFFFFFF, n2 = 0, n3 = 0, n4 = 0\<rparr>"

text \<open>The largest representation of magnitude 8.\<close>

definition max8 :: FieldElem where
  "max8 = \<lparr>n0 = 0xFFFFFFFFFFFFF8, n1 = 0xFFFFFFFFFFFFF8, n2 = 0xFFFFFFFFFFFFF8,
            n3 = 0xFFFFFFFFFFFFF8, n4 = 0xFFFFFFFFFFFF8\<rparr>"

text \<open>A cube root of unity modulo \<open>p\<close>, as \<open>Set\<close> unpacks it:
  \<open>0x7AE96A2B657C07106E64479EAC3434E99CF0497512F58995C1396C28719501EE\<close>.\<close>

definition beta :: FieldElem where
  "beta = \<lparr>n0 = 0x96C28719501EE, n1 = 0x7512F58995C13, n2 = 0xC3434E99CF049,
            n3 = 0x7106E64479EA, n4 = 0x7AE96A2B657C\<rparr>"

text \<open>The generator of secp256k1 as a Jacobian point with \<open>z = 1\<close>:
  \<open>x = 0x79BE667EF9DCBBAC55A06295CE870B07029BFCDB2DCE28D959F2815B16F81798\<close>,
  \<open>y = 0x483ADA7726A3C4655DA4FBFC0E1108A8FD17B448A68554199C47D08FFB10D4B8\<close>.\<close>

definition G :: GroupElemJac where
  "G = GroupElemJac_xy
         \<lparr>n0 = 0x2815B16F81798, n1 = 0xDB2DCE28D959F, n2 = 0xE870B07029BFC,
          n3 = 0xBBAC55A06295C, n4 = 0x79BE667EF9DC\<rparr>
         \<lparr>n0 = 0x7D08FFB10D4B8, n1 = 0x48A68554199C4, n2 = 0xE1108A8FD17B4,
          n3 = 0xC4655DA4FBFC0, n4 = 0x483ADA7726A3\<rparr>"

text \<open>The double of the generator, with \<open>z = 1\<close>.\<close>

definition G_twice :: GroupElemJac where
  "G_twice = GroupElemJac_xy
         \<lparr>n0 = 0xC09B95C709EE5, n1 = 0x4B8CEF3CA7ABA, n2 = 0x5C07CD85C778E,
          n3 = 0x7D6D3045406E9, n4 = 0xC6047F9441ED\<rparr>
         \<lparr>n0 = 0x431A950CFE52A, n1 = 0x653266D0E1236, n2 = 0x66CEAEEF7F632,
          n3 = 0xC339A3C584194, n4 = 0x1AE168FEA63D\<rparr>"

text \<open>A point of the curve in Jacobian coordinates with canonical limbs, and what
  \<open>SetDouble\<close> computes from it.\<close>

definition P0 :: GroupElemJac where
  "P0 = \<lparr>fInfinity = False,
     px = \<lparr>n0 = 0xC28DBBE9BB018, n1 = 0x230E67AF45D95, n2 = 0x281F82FE90E56,
      n3 = 0x6DC766004124E, n4 = 0xF5EFACEEDCE\<rparr>,
     py = \<lparr>n0 = 0x8325478A984A1, n1 = 0x13F992C97FE5, n2 = 0xA104E8B883020,
      n3 = 0x70EE18F232BA3, n4 = 0x89346D273E8E\<rparr>,
     pz = \<lparr>n0 = 0x6343B761FF7D5, n1 = 0x157A58ED073A8, n2 = 0x5FF5A40AC5556,
      n3 = 0x3606725A749D9, n4 = 0xD2749A9C6373\<rparr>\<rparr>"

definition P0_doubled :: GroupElemJac where
  "P0_doubled = \<lparr>fInfinity = False,
     px = \<lparr>n0 = 0x22C966246211DE, n1 = 0x497E896A2C276C, n2 = 0x44AEC4BCD4C446,
      n3 = 0x1D60B4F80BFCB3, n4 = 0x37CCE0886146D\<rparr>,
     py = \<lparr>n0 = 0x2977E547C8DE90, n1 = 0x28546C19787C66, n2 = 0x2816A6F38E8FF4,
      n3 = 0x1C57C256B3E197, n4 = 0x3A99CD5C3329F\<rparr>,
     pz = \<lparr>n0 = 0xC3F4492E2A78A, n1 = 0x9F9E5E018BC92, n2 = 0x132D93A4155EFA,
      n3 = 0x8E92B56703D70, n4 = 0x1E786BA332B9E\<rparr>\<rparr>"


text \<open>A point \<open>PW\<close> of the curve with \<open>z = 1\<close> whose \<open>x\<close> is \<open>0x1000003D1\<close> modulo \<open>p\<close>, held
  as the limbs of \<open>2^257 - 0x1000003D1\<close>: what \<open>operator+=\<close> makes of \<open>Set\<close> of \<open>2^256 - 1\<close>
  and \<open>Set\<close> of \<open>2^256 - 0x1000003D0\<close> (magnitude 2). \<open>PW_neg\<close> is its negative, affine, with
  canonical limbs.\<close>

definition PW :: GroupElemJac where
  "PW = GroupElemJac_xy
     \<lparr>n0 = 0x1FFFFEFFFFFC2F, n1 = 0x1FFFFFFFFFFFFE, n2 = 0x1FFFFFFFFFFFFE,
      n3 = 0x1FFFFFFFFFFFFE, n4 = 0x1FFFFFFFFFFFE\<rparr>
     \<lparr>n0 = 0xB9B51A32AF048, n1 = 0xE8C2D4916AB37, n2 = 0xE09948080C18C,
      n3 = 0x44327AF822A78, n4 = 0xDD78C34F17A1\<rparr>"

definition PW_neg :: GroupElem where
  "PW_neg = \<lparr>fInfinity = False, px = FieldElem_int 0x1000003D1,
     py = \<lparr>n0 = 0x464AD5CD50BE7, n1 = 0x173D2B6E954C8, n2 = 0x1F66B7F7F3E73,
      n3 = 0xBBCD8507DD587, n4 = 0x22873CB0E85E\<rparr>\<rparr>"

text \<open>A point \<open>PY\<close> of the curve with \<open>z = 1\<close> whose \<open>y\<close> is \<open>0x20000079A\<close> modulo \<open>p\<close>, held
  as the limbs of \<open>2^257 - 8\<close> (again a sum of two \<open>Set\<close> values); the same point with
  canonical limbs; and what \<open>r.SetAdd(r,q)\<close> leaves in \<open>r\<close> for these two.\<close>

definition PY :: GroupElemJac where
  "PY = GroupElemJac_xy
     \<lparr>n0 = 0xA37E7BE04C690, n1 = 0xDEBD1591D7F10, n2 = 0x932814D94E0C8,
      n3 = 0xCC34CBCD5FD98, n4 = 0xAC10C70770F7\<rparr>
     \<lparr>n0 = 0x1FFFFFFFFFFFF8, n1 = 0x1FFFFFFFFFFFFE, n2 = 0x1FFFFFFFFFFFFE,
      n3 = 0x1FFFFFFFFFFFFE, n4 = 0x1FFFFFFFFFFFE\<rparr>"

definition PY_canonical :: GroupElemJac where
  "PY_canonical = GroupElemJac_xy (px PY) (FieldElem_int 0x20000079A)"

definition PY_doubled :: GroupElemJac where
  "PY_doubled = \<lparr>fInfinity = False,
     px = \<lparr>n0 = 0x444B3527B21068, n1 = 0x1B79171A3971C7, n2 = 0x24C5C3158A53D0,
      n3 = 0x50BB07734E4586, n4 = 0x32F792B3B2BAC\<rparr>,
     py = \<lparr>n0 = 0x313E8E322B7655, n1 = 0x2DF9B9A717D624, n2 = 0x3FFFFED7FFEE65,
      n3 = 0x3FFFFFFFFFFFFC, n4 = 0x3FFFFFFFFFFFC\<rparr>,
     pz = \<lparr>n0 = 0x200000792, n1 = 0, n2 = 0, n3 = 0, n4 = 0\<rparr>\<rparr>"
section \<open>Multiplication and squaring are correct up to magnitude 8\<close>

lemma and52: "(c::int) AND 0xFFFFFFFFFFFFF = c mod 2 ^ 52"
proof -
  have "(0xFFFFFFFFFFFFF :: int) = mask 52" by (simp add: mask_eq_exp_minus_1)
  then show ?thesis by (simp only: take_bit_eq_mask [symmetric] take_bit_eq_mod)
qed

lemma and48: "(c::int) AND 0x0FFFFFFFFFFFF = c mod 2 ^ 48"
proof -
  have "(0x0FFFFFFFFFFFF :: int) = mask 48" by (simp add: mask_eq_exp_minus_1)
  then show ?thesis by (simp only: take_bit_eq_mask [symmetric] take_bit_eq_mod)
qed

lemma uint_lo52: "uint (lo52 c) = c mod 2 ^ 52"
proof -
  have "0 \<le> c mod 2 ^ 52" "c mod 2 ^ 52 < 2 ^ 52" by simp_all
  then have "(c mod 2 ^ 52) mod 2 ^ 64 = c mod 2 ^ 52" by (intro mod_pos_pos_trivial) simp_all
  then show ?thesis by (simp add: lo52_def and52 uint_word_of_int)
qed

lemma uint_lo48: "uint (lo48 c) = c mod 2 ^ 48"
proof -
  have "0 \<le> c mod 2 ^ 48" "c mod 2 ^ 48 < 2 ^ 48" by simp_all
  then have "(c mod 2 ^ 48) mod 2 ^ 64 = c mod 2 ^ 48" by (intro mod_pos_pos_trivial) simp_all
  then show ?thesis by (simp add: lo48_def and48 uint_word_of_int)
qed

lemma i128_Some: "0 \<le> v \<Longrightarrow> v < 2 ^ 127 \<Longrightarrow> i128 v = Some v"
  by (simp add: i128_def)

lemma mul128_Some: "0 \<le> u \<Longrightarrow> 0 \<le> v \<Longrightarrow> u * v < 2 ^ 127 \<Longrightarrow> mul128 u v = Some (u * v)"
proof -
  assume a: "0 \<le> u" "0 \<le> v" "u * v < 2 ^ 127"
  have "0 \<le> u * v" using a(1,2) by (rule mult_nonneg_nonneg)
  then have "i128 (u * v) = Some (u * v)" using a(3) by (rule i128_Some)
  then show ?thesis by (simp only: mul128_def)
qed

lemma sum128_Some:
  "0 \<le> c \<Longrightarrow> \<forall>v\<in>set vs. 0 \<le> v \<Longrightarrow> c + sum_list vs < 2 ^ 127
   \<Longrightarrow> sum128 c (map Some vs) = Some (c + sum_list vs)"
proof (induction vs arbitrary: c)
  case Nil
  then show ?case by simp
next
  case (Cons v vs)
  have "0 \<le> sum_list vs" using Cons.prems(2) by (simp add: sum_list_nonneg)
  then have "i128 (c + v) = Some (c + v)" using Cons.prems by (intro i128_Some) simp_all
  moreover have "sum128 (c + v) (map Some vs) = Some (c + v + sum_list vs)"
    using Cons.prems by (intro Cons.IH) (simp_all add: add.assoc)
  ultimately show ?case by (simp add: add.assoc)
qed

lemma div52_bound: "0 \<le> (c::int) \<Longrightarrow> c < 2 ^ 52 * k \<Longrightarrow> 0 \<le> c div 2 ^ 52 \<and> c div 2 ^ 52 < k"
  by (simp add: pos_imp_zdiv_nonneg_iff div_less_iff_less_mult mult.commute)

lemma mul128_sum128: "mul128 u v = sum128 0 [mul128 u v]"
  by (simp add: mul128_def i128_def)

lemma SetMult_core:
  "SetMult a b = mul_core
     [mul128 (uint (n0 a)) (uint (n0 b))]
     [mul128 (uint (n0 a)) (uint (n1 b)), mul128 (uint (n1 a)) (uint (n0 b))]
     [mul128 (uint (n0 a)) (uint (n2 b)), mul128 (uint (n1 a)) (uint (n1 b)),
      mul128 (uint (n2 a)) (uint (n0 b))]
     [mul128 (uint (n0 a)) (uint (n3 b)), mul128 (uint (n1 a)) (uint (n2 b)),
      mul128 (uint (n2 a)) (uint (n1 b)), mul128 (uint (n3 a)) (uint (n0 b))]
     [mul128 (uint (n0 a)) (uint (n4 b)), mul128 (uint (n1 a)) (uint (n3 b)),
      mul128 (uint (n2 a)) (uint (n2 b)), mul128 (uint (n3 a)) (uint (n1 b)),
      mul128 (uint (n4 a)) (uint (n0 b))]
     [mul128 (uint (n1 a)) (uint (n4 b)), mul128 (uint (n2 a)) (uint (n3 b)),
      mul128 (uint (n3 a)) (uint (n2 b)), mul128 (uint (n4 a)) (uint (n1 b))]
     [mul128 (uint (n2 a)) (uint (n4 b)), mul128 (uint (n3 a)) (uint (n3 b)),
      mul128 (uint (n4 a)) (uint (n2 b))]
     [mul128 (uint (n3 a)) (uint (n4 b)), mul128 (uint (n4 a)) (uint (n3 b))]
     [mul128 (uint (n4 a)) (uint (n4 b))]"
  unfolding SetMult_def mul_core_def
  by (subst mul128_sum128) (rule refl)

lemma SetSquare_core:
  "SetSquare a = mul_core
     [mul128 (uint (n0 a)) (uint (n0 a))]
     [mul128 (uint (n0 a * 2)) (uint (n1 a))]
     [mul128 (uint (n0 a * 2)) (uint (n2 a)), mul128 (uint (n1 a)) (uint (n1 a))]
     [mul128 (uint (n0 a * 2)) (uint (n3 a)), mul128 (uint (n1 a * 2)) (uint (n2 a))]
     [mul128 (uint (n0 a * 2)) (uint (n4 a)), mul128 (uint (n1 a * 2)) (uint (n3 a)),
      mul128 (uint (n2 a)) (uint (n2 a))]
     [mul128 (uint (n1 a * 2)) (uint (n4 a)), mul128 (uint (n2 a * 2)) (uint (n3 a))]
     [mul128 (uint (n2 a * 2)) (uint (n4 a)), mul128 (uint (n3 a)) (uint (n3 a))]
     [mul128 (uint (n3 a * 2)) (uint (n4 a))]
     [mul128 (uint (n4 a)) (uint (n4 a))]"
  unfolding SetSquare_def mul_core_def
  by (subst mul128_sum128) (rule refl)

lemma div52_nn: "0 \<le> (c::int) \<Longrightarrow> 0 \<le> c div 2 ^ 52"
  by (simp add: pos_imp_zdiv_nonneg_iff)

lemma div48_bound: "0 \<le> (c::int) \<Longrightarrow> c < 2 ^ 48 * k \<Longrightarrow> 0 \<le> c div 2 ^ 48 \<and> c div 2 ^ 48 < k"
  by (simp add: pos_imp_zdiv_nonneg_iff div_less_iff_less_mult mult.commute)

lemma mod52_split: "(c::int) = c mod 2 ^ 52 + 2 ^ 52 * (c div 2 ^ 52)"
  by simp

lemma mod48_split: "(c::int) = c mod 2 ^ 48 + 2 ^ 48 * (c div 2 ^ 48)"
  by simp

lemma P_fold256: "(2::int) ^ 256 = P + 0x1000003D1"
  by (simp add: P_def)

lemma sum_list_le_length:
  fixes vs :: "int list"
  shows "\<forall>v\<in>set vs. 0 \<le> v \<and> v \<le> B \<Longrightarrow> sum_list vs \<le> int (length vs) * B"
  by (induction vs) (auto simp: algebra_simps)

lemma mul_core_ok:
  fixes v0 v1 v2 v3 v4 v5 v6 v7 v8 :: "int list"
  assumes el: "\<forall>v\<in>set v0. 0 \<le> v \<and> v \<le> 2 ^ 114" "\<forall>v\<in>set v1. 0 \<le> v \<and> v \<le> 2 ^ 114"
      "\<forall>v\<in>set v2. 0 \<le> v \<and> v \<le> 2 ^ 114" "\<forall>v\<in>set v3. 0 \<le> v \<and> v \<le> 2 ^ 114"
      "\<forall>v\<in>set v4. 0 \<le> v \<and> v \<le> 2 ^ 114" "\<forall>v\<in>set v5. 0 \<le> v \<and> v \<le> 2 ^ 114"
      "\<forall>v\<in>set v6. 0 \<le> v \<and> v \<le> 2 ^ 114" "\<forall>v\<in>set v7. 0 \<le> v \<and> v \<le> 2 ^ 114"
      "\<forall>v\<in>set v8. 0 \<le> v \<and> v \<le> 2 ^ 104"
    and len: "length v0 \<le> 5" "length v1 \<le> 5" "length v2 \<le> 5" "length v3 \<le> 5"
      "length v4 \<le> 5" "length v5 \<le> 5" "length v6 \<le> 5" "length v7 \<le> 5" "length v8 \<le> 1"
  shows "\<exists>r. mul_core (map Some v0) (map Some v1) (map Some v2) (map Some v3) (map Some v4)
                 (map Some v5) (map Some v6) (map Some v7) (map Some v8) = Some r
            \<and> mult_out r
            \<and> val r mod P = (sum_list v0 + sum_list v1 * 2 ^ 52 + sum_list v2 * 2 ^ 104
                 + sum_list v3 * 2 ^ 156 + sum_list v4 * 2 ^ 208 + sum_list v5 * 2 ^ 260
                 + sum_list v6 * 2 ^ 312 + sum_list v7 * 2 ^ 364 + sum_list v8 * 2 ^ 416) mod P"
proof -
  define S0 S1 S2 S3 S4 S5 S6 S7 S8 where S_defs: "S0 = sum_list v0" "S1 = sum_list v1"
    "S2 = sum_list v2" "S3 = sum_list v3" "S4 = sum_list v4" "S5 = sum_list v5"
    "S6 = sum_list v6" "S7 = sum_list v7" "S8 = sum_list v8"
  have nn: "\<forall>v\<in>set v0. 0 \<le> v" "\<forall>v\<in>set v1. 0 \<le> v" "\<forall>v\<in>set v2. 0 \<le> v"
      "\<forall>v\<in>set v3. 0 \<le> v" "\<forall>v\<in>set v4. 0 \<le> v" "\<forall>v\<in>set v5. 0 \<le> v"
      "\<forall>v\<in>set v6. 0 \<le> v" "\<forall>v\<in>set v7. 0 \<le> v" "\<forall>v\<in>set v8. 0 \<le> v"
    using el by simp_all
  have Snn: "0 \<le> S0" "0 \<le> S1" "0 \<le> S2" "0 \<le> S3" "0 \<le> S4" "0 \<le> S5" "0 \<le> S6" "0 \<le> S7" "0 \<le> S8"
    using nn by (simp_all add: S_defs sum_list_nonneg)
  have col: "sum_list vs \<le> 5 * 2 ^ 114"
    if "\<forall>v\<in>set vs. 0 \<le> v \<and> v \<le> 2 ^ 114" "length vs \<le> 5" for vs :: "int list"
  proof -
    have "sum_list vs \<le> int (length vs) * 2 ^ 114"
      using that(1) by (rule sum_list_le_length)
    also have "\<dots> \<le> 5 * 2 ^ 114" using that(2) by simp
    finally show ?thesis .
  qed
  have Sub: "S0 \<le> 5 * 2 ^ 114" "S1 \<le> 5 * 2 ^ 114" "S2 \<le> 5 * 2 ^ 114" "S3 \<le> 5 * 2 ^ 114"
    "S4 \<le> 5 * 2 ^ 114" "S5 \<le> 5 * 2 ^ 114" "S6 \<le> 5 * 2 ^ 114" "S7 \<le> 5 * 2 ^ 114"
    unfolding S_defs
    by (rule col [OF el(1) len(1)], rule col [OF el(2) len(2)], rule col [OF el(3) len(3)],
        rule col [OF el(4) len(4)], rule col [OF el(5) len(5)], rule col [OF el(6) len(6)],
        rule col [OF el(7) len(7)], rule col [OF el(8) len(8)])
  have Sub8: "S8 \<le> 2 ^ 104"
  proof -
    have "sum_list v8 \<le> int (length v8) * 2 ^ 104"
      using el(9) by (intro sum_list_le_length) simp
    also have "\<dots> \<le> 1 * 2 ^ 104" using len(9) by simp
    finally show ?thesis by (simp add: S_defs)
  qed
  define c0 where "c0 = S0"
  define c1 where "c1 = c0 div 2 ^ 52 + S1"
  define c2 where "c2 = c1 div 2 ^ 52 + S2"
  define c3 where "c3 = c2 div 2 ^ 52 + S3"
  define c4 where "c4 = c3 div 2 ^ 52 + S4"
  define c5 where "c5 = c4 div 2 ^ 52 + S5"
  define c6 where "c6 = c5 div 2 ^ 52 + S6"
  define c7 where "c7 = c6 div 2 ^ 52 + S7"
  define c8 where "c8 = c7 div 2 ^ 52 + S8"
  have step: "0 \<le> c div 2 ^ 52 + s \<and> c div 2 ^ 52 + s < 2 ^ 118"
    if "0 \<le> c" "c < 2 ^ 118" "0 \<le> s" "s \<le> 5 * 2 ^ 114" for c s :: int
  proof -
    have "0 \<le> c div 2 ^ 52 \<and> c div 2 ^ 52 < 2 ^ 66"
      using that(1,2) by (intro div52_bound) simp_all
    with that(3,4) show ?thesis by simp
  qed
  have b0: "0 \<le> c0 \<and> c0 < 2 ^ 118" using Snn(1) Sub(1) by (simp add: c0_def)
  have b1: "0 \<le> c1 \<and> c1 < 2 ^ 118" unfolding c1_def using b0 Snn(2) Sub(2) by (intro step) simp_all
  have b2: "0 \<le> c2 \<and> c2 < 2 ^ 118" unfolding c2_def using b1 Snn(3) Sub(3) by (intro step) simp_all
  have b3: "0 \<le> c3 \<and> c3 < 2 ^ 118" unfolding c3_def using b2 Snn(4) Sub(4) by (intro step) simp_all
  have b4: "0 \<le> c4 \<and> c4 < 2 ^ 118" unfolding c4_def using b3 Snn(5) Sub(5) by (intro step) simp_all
  have b5: "0 \<le> c5 \<and> c5 < 2 ^ 118" unfolding c5_def using b4 Snn(6) Sub(6) by (intro step) simp_all
  have b6: "0 \<le> c6 \<and> c6 < 2 ^ 118" unfolding c6_def using b5 Snn(7) Sub(7) by (intro step) simp_all
  have b7: "0 \<le> c7 \<and> c7 < 2 ^ 118" unfolding c7_def using b6 Snn(8) Sub(8) by (intro step) simp_all
  have q7: "0 \<le> c7 div 2 ^ 52 \<and> c7 div 2 ^ 52 < 2 ^ 66"
    using b7 by (intro div52_bound) simp_all
  have b8: "0 \<le> c8 \<and> c8 < 2 ^ 105" unfolding c8_def using q7 Snn(9) Sub8 by simp
  have x0: "sum128 0 (map Some v0) = Some c0"
    using nn(1) b0 by (simp add: sum128_Some c0_def S_defs)
  have xs: "sum128 (drop_bit 52 c) (map Some vs) = Some (c div 2 ^ 52 + sum_list vs)"
    if "0 \<le> c" "\<forall>v\<in>set vs. 0 \<le> v" "c div 2 ^ 52 + sum_list vs < 2 ^ 118" for c vs
  proof -
    have "0 \<le> c div 2 ^ 52" using that(1) by (rule div52_nn)
    moreover have "c div 2 ^ 52 + sum_list vs < 2 ^ 127" using that(3) by simp
    ultimately show ?thesis using that(2) by (simp add: drop_bit_eq_div sum128_Some)
  qed
  have x1: "sum128 (drop_bit 52 c0) (map Some v1) = Some c1"
    unfolding c1_def S_defs using b0 nn(2) b1 by (intro xs) (simp_all add: c1_def S_defs)
  have x2: "sum128 (drop_bit 52 c1) (map Some v2) = Some c2"
    unfolding c2_def S_defs using b1 nn(3) b2 by (intro xs) (simp_all add: c2_def S_defs)
  have x3: "sum128 (drop_bit 52 c2) (map Some v3) = Some c3"
    unfolding c3_def S_defs using b2 nn(4) b3 by (intro xs) (simp_all add: c3_def S_defs)
  have x4: "sum128 (drop_bit 52 c3) (map Some v4) = Some c4"
    unfolding c4_def S_defs using b3 nn(5) b4 by (intro xs) (simp_all add: c4_def S_defs)
  have x5: "sum128 (drop_bit 52 c4) (map Some v5) = Some c5"
    unfolding c5_def S_defs using b4 nn(6) b5 by (intro xs) (simp_all add: c5_def S_defs)
  have x6: "sum128 (drop_bit 52 c5) (map Some v6) = Some c6"
    unfolding c6_def S_defs using b5 nn(7) b6 by (intro xs) (simp_all add: c6_def S_defs)
  have x7: "sum128 (drop_bit 52 c6) (map Some v7) = Some c7"
    unfolding c7_def S_defs using b6 nn(8) b7 by (intro xs) (simp_all add: c7_def S_defs)
  have x8: "sum128 (drop_bit 52 c7) (map Some v8) = Some c8"
    unfolding c8_def S_defs using b7 nn(9) b8 by (intro xs) (simp_all add: c8_def S_defs)
  define T0 T1 T2 T3 T4 T5 T6 T7 T8 T9 where T_defs: "T0 = c0 mod 2 ^ 52" "T1 = c1 mod 2 ^ 52"
    "T2 = c2 mod 2 ^ 52" "T3 = c3 mod 2 ^ 52" "T4 = c4 mod 2 ^ 52" "T5 = c5 mod 2 ^ 52"
    "T6 = c6 mod 2 ^ 52" "T7 = c7 mod 2 ^ 52" "T8 = c8 mod 2 ^ 52" "T9 = c8 div 2 ^ 52"
  have Tb: "0 \<le> T0 \<and> T0 < 2 ^ 52" "0 \<le> T1 \<and> T1 < 2 ^ 52" "0 \<le> T2 \<and> T2 < 2 ^ 52"
    "0 \<le> T3 \<and> T3 < 2 ^ 52" "0 \<le> T4 \<and> T4 < 2 ^ 52" "0 \<le> T5 \<and> T5 < 2 ^ 52"
    "0 \<le> T6 \<and> T6 < 2 ^ 52" "0 \<le> T7 \<and> T7 < 2 ^ 52" "0 \<le> T8 \<and> T8 < 2 ^ 52"
    by (simp_all add: T_defs)
  have T9b: "0 \<le> T9 \<and> T9 < 2 ^ 53"
    unfolding T_defs using b8 by (intro div52_bound) simp_all
  have tr: "uint (lo52 c0) = T0" "uint (lo52 c1) = T1" "uint (lo52 c2) = T2" "uint (lo52 c3) = T3"
    "uint (lo52 c4) = T4" "uint (lo52 c5) = T5" "uint (lo52 c6) = T6" "uint (lo52 c7) = T7"
    "uint (lo52 c8) = T8"
    by (simp_all add: uint_lo52 T_defs)
  have t9: "uint (word_of_int (drop_bit 52 c8) :: u64) = T9"
  proof -
    have "T9 mod 2 ^ 64 = T9" using T9b by (intro mod_pos_pos_trivial) simp_all
    then show ?thesis by (simp add: uint_word_of_int drop_bit_eq_div T_defs)
  qed
  define d0 where "d0 = T0 + T5 * 0x1000003D10"
  define d1 where "d1 = d0 div 2 ^ 52 + T1 + T6 * 0x1000003D10"
  define d2 where "d2 = d1 div 2 ^ 52 + T2 + T7 * 0x1000003D10"
  define d3 where "d3 = d2 div 2 ^ 52 + T3 + T8 * 0x1000003D10"
  define d4 where "d4 = d3 div 2 ^ 52 + T4 + T9 * 0x1000003D10"
  define e where "e = d4 div 2 ^ 48"
  define U0 U1 where U_defs: "U0 = d0 mod 2 ^ 52" "U1 = d1 mod 2 ^ 52"
  have Ub: "0 \<le> U0 \<and> U0 < 2 ^ 52" "0 \<le> U1 \<and> U1 < 2 ^ 52"
    by (simp_all add: U_defs)
  have tr2: "uint (lo52 d0) = U0" "uint (lo52 d1) = U1"
    by (simp_all add: uint_lo52 U_defs)
  define f where "f = U0 + e * 0x1000003D1"
  define g where "g = f div 2 ^ 52"
  have dstep: "0 \<le> c div 2 ^ 52 + t + u * 0x1000003D10 \<and> c div 2 ^ 52 + t + u * 0x1000003D10 < 2 ^ 91"
    if "0 \<le> c" "c < 2 ^ 91" "0 \<le> t \<and> t < 2 ^ 52" "0 \<le> u \<and> u < 2 ^ 53" for c t u :: int
  proof -
    have "0 \<le> c div 2 ^ 52 \<and> c div 2 ^ 52 < 2 ^ 39"
      using that(1,2) by (intro div52_bound) simp_all
    with that(3,4) show ?thesis by simp
  qed
  have T53: "0 \<le> T5 \<and> T5 < 2 ^ 53" "0 \<le> T6 \<and> T6 < 2 ^ 53" "0 \<le> T7 \<and> T7 < 2 ^ 53"
    "0 \<le> T8 \<and> T8 < 2 ^ 53"
    using Tb by simp_all
  have e0: "0 \<le> d0 \<and> d0 < 2 ^ 91" unfolding d0_def using Tb(1) T53(1) by simp
  have e1: "0 \<le> d1 \<and> d1 < 2 ^ 91" unfolding d1_def using e0 Tb(2) T53(2) by (intro dstep) simp_all
  have e2: "0 \<le> d2 \<and> d2 < 2 ^ 91" unfolding d2_def using e1 Tb(3) T53(3) by (intro dstep) simp_all
  have e3: "0 \<le> d3 \<and> d3 < 2 ^ 91" unfolding d3_def using e2 Tb(4) T53(4) by (intro dstep) simp_all
  have e4: "0 \<le> d4 \<and> d4 < 2 ^ 91" unfolding d4_def using e3 Tb(5) T9b by (intro dstep) simp_all
  have eb: "0 \<le> e \<and> e < 2 ^ 43"
    unfolding e_def using e4 by (intro div48_bound) simp_all
  have fb: "0 \<le> f \<and> f < 2 ^ 77"
    unfolding f_def using eb Ub(1) by simp
  have gb: "0 \<le> g \<and> g < 2 ^ 25"
    unfolding g_def using fb by (intro div52_bound) simp_all
  have ys: "sum128 (drop_bit 52 c) [Some t, mul128 u 0x1000003D10]
              = Some (c div 2 ^ 52 + t + u * 0x1000003D10)"
    if "0 \<le> c" "c < 2 ^ 91" "0 \<le> t \<and> t < 2 ^ 52" "0 \<le> u \<and> u < 2 ^ 53" for c t u :: int
  proof -
    have m: "mul128 u 0x1000003D10 = Some (u * 0x1000003D10)"
      using that(4) by (intro mul128_Some) simp_all
    have q: "0 \<le> c div 2 ^ 52 \<and> c div 2 ^ 52 < 2 ^ 39"
      using that(1,2) by (intro div52_bound) simp_all
    have "sum128 (c div 2 ^ 52) (map Some [t, u * 0x1000003D10])
            = Some (c div 2 ^ 52 + sum_list [t, u * 0x1000003D10])"
      using q that(3,4) by (intro sum128_Some) simp_all
    then show ?thesis by (simp add: m drop_bit_eq_div add.assoc del: sum128.simps)
  qed
  have y0: "sum128 T0 [mul128 T5 0x1000003D10] = Some d0"
  proof -
    have m: "mul128 T5 0x1000003D10 = Some (T5 * 0x1000003D10)"
      using Tb(6) by (intro mul128_Some) simp_all
    have "sum128 T0 (map Some [T5 * 0x1000003D10]) = Some (T0 + sum_list [T5 * 0x1000003D10])"
      using Tb(1,6) by (intro sum128_Some) simp_all
    then show ?thesis by (simp add: m d0_def del: sum128.simps)
  qed
  have y1: "sum128 (drop_bit 52 d0) [Some T1, mul128 T6 0x1000003D10] = Some d1"
    unfolding d1_def using e0 Tb(2) T53(2) by (intro ys) simp_all
  have y2: "sum128 (drop_bit 52 d1) [Some T2, mul128 T7 0x1000003D10] = Some d2"
    unfolding d2_def using e1 Tb(3) T53(3) by (intro ys) simp_all
  have y3: "sum128 (drop_bit 52 d2) [Some T3, mul128 T8 0x1000003D10] = Some d3"
    unfolding d3_def using e2 Tb(4) T53(4) by (intro ys) simp_all
  have y4: "sum128 (drop_bit 52 d3) [Some T4, mul128 T9 0x1000003D10] = Some d4"
    unfolding d4_def using e3 Tb(5) T9b by (intro ys) simp_all
  have y5: "sum128 U0 [mul128 (drop_bit 48 d4) 0x1000003D1] = Some f"
  proof -
    have m: "mul128 e 0x1000003D1 = Some (e * 0x1000003D1)"
      using eb by (intro mul128_Some) simp_all
    have "sum128 U0 (map Some [e * 0x1000003D1]) = Some (U0 + sum_list [e * 0x1000003D1])"
      using eb Ub(1) by (intro sum128_Some) simp_all
    then show ?thesis unfolding drop_bit_eq_div e_def [symmetric]
      by (simp add: m f_def del: sum128.simps)
  qed
  have y6: "sum128 U1 [Some (drop_bit 52 f)] = Some (U1 + g)"
  proof -
    have "sum128 U1 (map Some [g]) = Some (U1 + sum_list [g])"
      using gb Ub(2) by (intro sum128_Some) simp_all
    then show ?thesis unfolding drop_bit_eq_div g_def [symmetric]
      by (simp del: sum128.simps)
  qed
  define N1 :: u64 where "N1 = word_of_int (U1 + g)"
  define r where "r = \<lparr>n0 = lo52 f, n1 = N1, n2 = lo52 d2,
                        n3 = lo52 d3, n4 = lo48 d4\<rparr>"
  have run: "mul_core (map Some v0) (map Some v1) (map Some v2) (map Some v3) (map Some v4)
                 (map Some v5) (map Some v6) (map Some v7) (map Some v8) = Some r"
    unfolding mul_core_def r_def
    by (simp add: Let_def x0 x1 x2 x3 x4 x5 x6 x7 x8 tr t9 tr2 y0 y1 y2 y3 y4 y5 y6 N1_def
          del: sum128.simps)
  have u1: "uint N1 = U1 + g"
  proof -
    have "(U1 + g) mod 2 ^ 64 = U1 + g"
      using gb Ub(2) by (intro mod_pos_pos_trivial) simp_all
    then show ?thesis unfolding N1_def uint_word_of_int by simp
  qed
  have out: "mult_out r"
  proof -
    have "U1 + g < 2 ^ 52 + 2 ^ 25" using gb Ub(2) by simp
    then show ?thesis by (simp add: mult_out_def r_def uint_lo52 uint_lo48 u1)
  qed
  have I: "S0 + S1 * 2 ^ 52 + S2 * 2 ^ 104 + S3 * 2 ^ 156 + S4 * 2 ^ 208 + S5 * 2 ^ 260
             + S6 * 2 ^ 312 + S7 * 2 ^ 364 + S8 * 2 ^ 416
         = T0 + T1 * 2 ^ 52 + T2 * 2 ^ 104 + T3 * 2 ^ 156 + T4 * 2 ^ 208 + T5 * 2 ^ 260
             + T6 * 2 ^ 312 + T7 * 2 ^ 364 + T8 * 2 ^ 416 + T9 * 2 ^ 468"
  proof -
    have s: "S0 = T0 + 2 ^ 52 * (c0 div 2 ^ 52)"
      "S1 = T1 + 2 ^ 52 * (c1 div 2 ^ 52) - c0 div 2 ^ 52"
      "S2 = T2 + 2 ^ 52 * (c2 div 2 ^ 52) - c1 div 2 ^ 52"
      "S3 = T3 + 2 ^ 52 * (c3 div 2 ^ 52) - c2 div 2 ^ 52"
      "S4 = T4 + 2 ^ 52 * (c4 div 2 ^ 52) - c3 div 2 ^ 52"
      "S5 = T5 + 2 ^ 52 * (c5 div 2 ^ 52) - c4 div 2 ^ 52"
      "S6 = T6 + 2 ^ 52 * (c6 div 2 ^ 52) - c5 div 2 ^ 52"
      "S7 = T7 + 2 ^ 52 * (c7 div 2 ^ 52) - c6 div 2 ^ 52"
      "S8 = T8 + 2 ^ 52 * T9 - c7 div 2 ^ 52"
      using mod52_split [of c0] mod52_split [of c1] mod52_split [of c2] mod52_split [of c3]
        mod52_split [of c4] mod52_split [of c5] mod52_split [of c6] mod52_split [of c7]
        mod52_split [of c8]
      unfolding T_defs c0_def [symmetric] c1_def c2_def c3_def c4_def c5_def c6_def c7_def c8_def
      by linarith+
    show ?thesis unfolding s by simp
  qed
  have II: "val r + P * (e + 16 * (T5 + T6 * 2 ^ 52 + T7 * 2 ^ 104 + T8 * 2 ^ 156 + T9 * 2 ^ 208))
         = T0 + T1 * 2 ^ 52 + T2 * 2 ^ 104 + T3 * 2 ^ 156 + T4 * 2 ^ 208 + T5 * 2 ^ 260
             + T6 * 2 ^ 312 + T7 * 2 ^ 364 + T8 * 2 ^ 416 + T9 * 2 ^ 468"
  proof -
    have v: "val r = f mod 2 ^ 52 + (U1 + g) * 2 ^ 52 + (d2 mod 2 ^ 52) * 2 ^ 104
                + (d3 mod 2 ^ 52) * 2 ^ 156 + (d4 mod 2 ^ 48) * 2 ^ 208"
      by (simp add: val_def r_def uint_lo52 uint_lo48 u1)
    have s: "f mod 2 ^ 52 = U0 + e * 0x1000003D1 - 2 ^ 52 * g"
      "U0 = T0 + T5 * 0x1000003D10 - 2 ^ 52 * (d0 div 2 ^ 52)"
      "U1 = d0 div 2 ^ 52 + T1 + T6 * 0x1000003D10 - 2 ^ 52 * (d1 div 2 ^ 52)"
      "d2 mod 2 ^ 52 = d1 div 2 ^ 52 + T2 + T7 * 0x1000003D10 - 2 ^ 52 * (d2 div 2 ^ 52)"
      "d3 mod 2 ^ 52 = d2 div 2 ^ 52 + T3 + T8 * 0x1000003D10 - 2 ^ 52 * (d3 div 2 ^ 52)"
      "d4 mod 2 ^ 48 = d3 div 2 ^ 52 + T4 + T9 * 0x1000003D10 - 2 ^ 48 * e"
      using mod52_split [of f] mod52_split [of d0] mod52_split [of d1] mod52_split [of d2]
        mod52_split [of d3] mod48_split [of d4]
      unfolding g_def [symmetric] e_def [symmetric] f_def [symmetric] U_defs [symmetric]
        d0_def [symmetric] d1_def [symmetric] d2_def [symmetric] d3_def [symmetric]
        d4_def [symmetric]
      by linarith+
    show ?thesis unfolding v s P_def by simp
  qed
  have "val r mod P = (val r + P * (e + 16 * (T5 + T6 * 2 ^ 52 + T7 * 2 ^ 104 + T8 * 2 ^ 156
                         + T9 * 2 ^ 208))) mod P"
    by simp
  also have "\<dots> = (S0 + S1 * 2 ^ 52 + S2 * 2 ^ 104 + S3 * 2 ^ 156 + S4 * 2 ^ 208 + S5 * 2 ^ 260
             + S6 * 2 ^ 312 + S7 * 2 ^ 364 + S8 * 2 ^ 416) mod P"
    by (simp only: II I)
  finally have "val r mod P = (sum_list v0 + sum_list v1 * 2 ^ 52 + sum_list v2 * 2 ^ 104
                 + sum_list v3 * 2 ^ 156 + sum_list v4 * 2 ^ 208 + sum_list v5 * 2 ^ 260
                 + sum_list v6 * 2 ^ 312 + sum_list v7 * 2 ^ 364 + sum_list v8 * 2 ^ 416) mod P"
    by (simp only: S_defs)
  with run out show ?thesis by blast
qed

lemma prod_le:
  fixes x y :: int
  shows "0 \<le> x \<Longrightarrow> x < 2 ^ 57 \<Longrightarrow> 0 \<le> y \<Longrightarrow> y < 2 ^ 57 \<Longrightarrow> 0 \<le> x * y \<and> x * y \<le> 2 ^ 114"
proof -
  assume a: "0 \<le> x" "x < 2 ^ 57" "0 \<le> y" "y < 2 ^ 57"
  have "x * y \<le> 2 ^ 57 * 2 ^ 57" using a by (intro mult_mono) simp_all
  moreover have "0 \<le> x * y" using a by simp
  ultimately show ?thesis by simp
qed

lemma prod_le_top:
  fixes x y :: int
  shows "0 \<le> x \<Longrightarrow> x < 2 ^ 52 \<Longrightarrow> 0 \<le> y \<Longrightarrow> y < 2 ^ 52 \<Longrightarrow> 0 \<le> x * y \<and> x * y \<le> 2 ^ 104"
proof -
  assume a: "0 \<le> x" "x < 2 ^ 52" "0 \<le> y" "y < 2 ^ 52"
  have "x * y \<le> 2 ^ 52 * 2 ^ 52" using a by (intro mult_mono) simp_all
  moreover have "0 \<le> x * y" using a by simp
  ultimately show ?thesis by simp
qed

lemma mul128_prod:
  "0 \<le> x \<Longrightarrow> x < 2 ^ 57 \<Longrightarrow> 0 \<le> y \<Longrightarrow> y < 2 ^ 57 \<Longrightarrow> mul128 x y = Some (x * y)"
proof -
  assume a: "0 \<le> x" "x < 2 ^ 57" "0 \<le> y" "y < 2 ^ 57"
  from prod_le [OF a] have "x * y < 2 ^ 127" by simp
  with a show ?thesis by (intro mul128_Some) simp_all
qed

lemma mag8_operand: "mag 8 a \<Longrightarrow> operand a"
  by (simp add: mag_def operand_def)

lemma SetMult_ok:
  assumes "operand a" "operand b"
  shows "\<exists>r. SetMult a b = Some r \<and> mult_out r \<and> val r mod P = (val a * val b) mod P"
proof -
  define A0 A1 A2 A3 A4 where A_defs: "A0 = uint (n0 a)" "A1 = uint (n1 a)" "A2 = uint (n2 a)"
    "A3 = uint (n3 a)" "A4 = uint (n4 a)"
  define B0 B1 B2 B3 B4 where B_defs: "B0 = uint (n0 b)" "B1 = uint (n1 b)" "B2 = uint (n2 b)"
    "B3 = uint (n3 b)" "B4 = uint (n4 b)"
  have A: "0 \<le> A0 \<and> A0 < 2 ^ 57" "0 \<le> A1 \<and> A1 < 2 ^ 57" "0 \<le> A2 \<and> A2 < 2 ^ 57"
    "0 \<le> A3 \<and> A3 < 2 ^ 57" "0 \<le> A4 \<and> A4 < 2 ^ 57" "A4 < 2 ^ 52"
    using assms(1) by (simp_all add: operand_def A_defs)
  have B: "0 \<le> B0 \<and> B0 < 2 ^ 57" "0 \<le> B1 \<and> B1 < 2 ^ 57" "0 \<le> B2 \<and> B2 < 2 ^ 57"
    "0 \<le> B3 \<and> B3 < 2 ^ 57" "0 \<le> B4 \<and> B4 < 2 ^ 57" "B4 < 2 ^ 52"
    using assms(2) by (simp_all add: operand_def B_defs)
  note AB = A(1-5) B(1-5)
  have m: "mul128 x y = Some (x * y)" "0 \<le> x * y \<and> x * y \<le> 2 ^ 114"
    if "0 \<le> x \<and> x < 2 ^ 57" "0 \<le> y \<and> y < 2 ^ 57" for x y :: int
    using that mul128_prod [of x y] prod_le [of x y] by simp_all
  have top: "0 \<le> A4 * B4 \<and> A4 * B4 \<le> 2 ^ 104"
    using A(5,6) B(5,6) by (intro prod_le_top) simp_all
  have core: "SetMult a b = mul_core
     (map Some [A0 * B0])
     (map Some [A0 * B1, A1 * B0])
     (map Some [A0 * B2, A1 * B1, A2 * B0])
     (map Some [A0 * B3, A1 * B2, A2 * B1, A3 * B0])
     (map Some [A0 * B4, A1 * B3, A2 * B2, A3 * B1, A4 * B0])
     (map Some [A1 * B4, A2 * B3, A3 * B2, A4 * B1])
     (map Some [A2 * B4, A3 * B3, A4 * B2])
     (map Some [A3 * B4, A4 * B3])
     (map Some [A4 * B4])"
    unfolding SetMult_core A_defs [symmetric] B_defs [symmetric]
    by (simp only: m(1) [OF AB(1) AB(6)] m(1) [OF AB(1) AB(7)] m(1) [OF AB(1) AB(8)]
          m(1) [OF AB(1) AB(9)] m(1) [OF AB(1) AB(10)]
          m(1) [OF AB(2) AB(6)] m(1) [OF AB(2) AB(7)] m(1) [OF AB(2) AB(8)]
          m(1) [OF AB(2) AB(9)] m(1) [OF AB(2) AB(10)]
          m(1) [OF AB(3) AB(6)] m(1) [OF AB(3) AB(7)] m(1) [OF AB(3) AB(8)]
          m(1) [OF AB(3) AB(9)] m(1) [OF AB(3) AB(10)]
          m(1) [OF AB(4) AB(6)] m(1) [OF AB(4) AB(7)] m(1) [OF AB(4) AB(8)]
          m(1) [OF AB(4) AB(9)] m(1) [OF AB(4) AB(10)]
          m(1) [OF AB(5) AB(6)] m(1) [OF AB(5) AB(7)] m(1) [OF AB(5) AB(8)]
          m(1) [OF AB(5) AB(9)] m(1) [OF AB(5) AB(10)] list.map)
  have "\<exists>r. mul_core
     (map Some [A0 * B0])
     (map Some [A0 * B1, A1 * B0])
     (map Some [A0 * B2, A1 * B1, A2 * B0])
     (map Some [A0 * B3, A1 * B2, A2 * B1, A3 * B0])
     (map Some [A0 * B4, A1 * B3, A2 * B2, A3 * B1, A4 * B0])
     (map Some [A1 * B4, A2 * B3, A3 * B2, A4 * B1])
     (map Some [A2 * B4, A3 * B3, A4 * B2])
     (map Some [A3 * B4, A4 * B3])
     (map Some [A4 * B4]) = Some r \<and> mult_out r
     \<and> val r mod P = (sum_list [A0 * B0] + sum_list [A0 * B1, A1 * B0] * 2 ^ 52
          + sum_list [A0 * B2, A1 * B1, A2 * B0] * 2 ^ 104
          + sum_list [A0 * B3, A1 * B2, A2 * B1, A3 * B0] * 2 ^ 156
          + sum_list [A0 * B4, A1 * B3, A2 * B2, A3 * B1, A4 * B0] * 2 ^ 208
          + sum_list [A1 * B4, A2 * B3, A3 * B2, A4 * B1] * 2 ^ 260
          + sum_list [A2 * B4, A3 * B3, A4 * B2] * 2 ^ 312
          + sum_list [A3 * B4, A4 * B3] * 2 ^ 364
          + sum_list [A4 * B4] * 2 ^ 416) mod P"
    using m(2) [OF AB(1) AB(6)] m(2) [OF AB(1) AB(7)] m(2) [OF AB(1) AB(8)]
          m(2) [OF AB(1) AB(9)] m(2) [OF AB(1) AB(10)]
          m(2) [OF AB(2) AB(6)] m(2) [OF AB(2) AB(7)] m(2) [OF AB(2) AB(8)]
          m(2) [OF AB(2) AB(9)] m(2) [OF AB(2) AB(10)]
          m(2) [OF AB(3) AB(6)] m(2) [OF AB(3) AB(7)] m(2) [OF AB(3) AB(8)]
          m(2) [OF AB(3) AB(9)] m(2) [OF AB(3) AB(10)]
          m(2) [OF AB(4) AB(6)] m(2) [OF AB(4) AB(7)] m(2) [OF AB(4) AB(8)]
          m(2) [OF AB(4) AB(9)] m(2) [OF AB(4) AB(10)]
          m(2) [OF AB(5) AB(6)] m(2) [OF AB(5) AB(7)] m(2) [OF AB(5) AB(8)]
          m(2) [OF AB(5) AB(9)] top
    by (intro mul_core_ok) simp_all
  moreover have "val a * val b = sum_list [A0 * B0] + sum_list [A0 * B1, A1 * B0] * 2 ^ 52
          + sum_list [A0 * B2, A1 * B1, A2 * B0] * 2 ^ 104
          + sum_list [A0 * B3, A1 * B2, A2 * B1, A3 * B0] * 2 ^ 156
          + sum_list [A0 * B4, A1 * B3, A2 * B2, A3 * B1, A4 * B0] * 2 ^ 208
          + sum_list [A1 * B4, A2 * B3, A3 * B2, A4 * B1] * 2 ^ 260
          + sum_list [A2 * B4, A3 * B3, A4 * B2] * 2 ^ 312
          + sum_list [A3 * B4, A4 * B3] * 2 ^ 364
          + sum_list [A4 * B4] * 2 ^ 416"
    unfolding val_def A_defs [symmetric] B_defs [symmetric]
    by (simp add: algebra_simps)
  ultimately show ?thesis using core by simp
qed

lemma uint_dbl: "uint (w :: u64) < 2 ^ 56 \<Longrightarrow> uint (w * 2) = 2 * uint w"
proof -
  assume "uint w < 2 ^ 56"
  then have "uint w * uint (2 :: u64) < 2 ^ LENGTH(64)" by simp
  then have "uint (w * 2) = uint w * uint (2 :: u64)" by (simp only: uint_mult_lem)
  then show ?thesis by simp
qed

lemma SetSquare_ok:
  assumes "operand a"
  shows "\<exists>r. SetSquare a = Some r \<and> mult_out r \<and> val r mod P = (val a * val a) mod P"
proof -
  define A0 A1 A2 A3 A4 where A_defs: "A0 = uint (n0 a)" "A1 = uint (n1 a)" "A2 = uint (n2 a)"
    "A3 = uint (n3 a)" "A4 = uint (n4 a)"
  define D0 D1 D2 D3 where D_defs: "D0 = 2 * A0" "D1 = 2 * A1" "D2 = 2 * A2" "D3 = 2 * A3"
  have A: "0 \<le> A0 \<and> A0 < 2 ^ 57" "0 \<le> A1 \<and> A1 < 2 ^ 57" "0 \<le> A2 \<and> A2 < 2 ^ 57"
    "0 \<le> A3 \<and> A3 < 2 ^ 57" "0 \<le> A4 \<and> A4 < 2 ^ 57" "A4 < 2 ^ 52"
    using assms(1) by (simp_all add: operand_def A_defs)
  have D: "0 \<le> D0 \<and> D0 < 2 ^ 57" "0 \<le> D1 \<and> D1 < 2 ^ 57" "0 \<le> D2 \<and> D2 < 2 ^ 57"
    "0 \<le> D3 \<and> D3 < 2 ^ 57"
    using assms(1) by (simp_all add: operand_def A_defs D_defs)
  have dbl: "uint (n0 a * 2) = D0" "uint (n1 a * 2) = D1" "uint (n2 a * 2) = D2"
    "uint (n3 a * 2) = D3"
    using assms(1) by (simp_all add: operand_def A_defs D_defs uint_dbl)
  have m: "mul128 x y = Some (x * y)" "0 \<le> x * y \<and> x * y \<le> 2 ^ 114"
    if "0 \<le> x \<and> x < 2 ^ 57" "0 \<le> y \<and> y < 2 ^ 57" for x y :: int
    using that mul128_prod [of x y] prod_le [of x y] by simp_all
  have top: "0 \<le> A4 * A4 \<and> A4 * A4 \<le> 2 ^ 104"
    using A(5,6) by (intro prod_le_top) simp_all
  have core: "SetSquare a = mul_core
     (map Some [A0 * A0])
     (map Some [D0 * A1])
     (map Some [D0 * A2, A1 * A1])
     (map Some [D0 * A3, D1 * A2])
     (map Some [D0 * A4, D1 * A3, A2 * A2])
     (map Some [D1 * A4, D2 * A3])
     (map Some [D2 * A4, A3 * A3])
     (map Some [D3 * A4])
     (map Some [A4 * A4])"
    unfolding SetSquare_core dbl A_defs [symmetric]
    by (simp only: m(1) [OF A(1) A(1)] m(1) [OF D(1) A(2)] m(1) [OF D(1) A(3)]
          m(1) [OF A(2) A(2)] m(1) [OF D(1) A(4)] m(1) [OF D(2) A(3)] m(1) [OF D(1) A(5)]
          m(1) [OF D(2) A(4)] m(1) [OF A(3) A(3)] m(1) [OF D(2) A(5)] m(1) [OF D(3) A(4)]
          m(1) [OF D(3) A(5)] m(1) [OF A(4) A(4)] m(1) [OF D(4) A(5)] m(1) [OF A(5) A(5)]
          list.map)
  have "\<exists>r. mul_core
     (map Some [A0 * A0])
     (map Some [D0 * A1])
     (map Some [D0 * A2, A1 * A1])
     (map Some [D0 * A3, D1 * A2])
     (map Some [D0 * A4, D1 * A3, A2 * A2])
     (map Some [D1 * A4, D2 * A3])
     (map Some [D2 * A4, A3 * A3])
     (map Some [D3 * A4])
     (map Some [A4 * A4]) = Some r \<and> mult_out r
     \<and> val r mod P = (sum_list [A0 * A0] + sum_list [D0 * A1] * 2 ^ 52
          + sum_list [D0 * A2, A1 * A1] * 2 ^ 104
          + sum_list [D0 * A3, D1 * A2] * 2 ^ 156
          + sum_list [D0 * A4, D1 * A3, A2 * A2] * 2 ^ 208
          + sum_list [D1 * A4, D2 * A3] * 2 ^ 260
          + sum_list [D2 * A4, A3 * A3] * 2 ^ 312
          + sum_list [D3 * A4] * 2 ^ 364
          + sum_list [A4 * A4] * 2 ^ 416) mod P"
    using m(2) [OF A(1) A(1)] m(2) [OF D(1) A(2)] m(2) [OF D(1) A(3)]
          m(2) [OF A(2) A(2)] m(2) [OF D(1) A(4)] m(2) [OF D(2) A(3)] m(2) [OF D(1) A(5)]
          m(2) [OF D(2) A(4)] m(2) [OF A(3) A(3)] m(2) [OF D(2) A(5)] m(2) [OF D(3) A(4)]
          m(2) [OF D(3) A(5)] m(2) [OF A(4) A(4)] m(2) [OF D(4) A(5)] top
    by (intro mul_core_ok) simp_all
  moreover have "val a * val a = sum_list [A0 * A0] + sum_list [D0 * A1] * 2 ^ 52
          + sum_list [D0 * A2, A1 * A1] * 2 ^ 104
          + sum_list [D0 * A3, D1 * A2] * 2 ^ 156
          + sum_list [D0 * A4, D1 * A3, A2 * A2] * 2 ^ 208
          + sum_list [D1 * A4, D2 * A3] * 2 ^ 260
          + sum_list [D2 * A4, A3 * A3] * 2 ^ 312
          + sum_list [D3 * A4] * 2 ^ 364
          + sum_list [A4 * A4] * 2 ^ 416"
    unfolding val_def A_defs [symmetric] D_defs
    by (simp add: algebra_simps)
  ultimately show ?thesis using core by simp
qed

lemma mult_out_mag1: "mult_out r \<Longrightarrow> mag 1 r"
  by (simp add: mult_out_def mag_def)

lemma mult_out_operand: "mult_out r \<Longrightarrow> operand r"
  by (simp add: mult_out_def operand_def)

section \<open>Normalisation\<close>

lemma Normalize_stages:
  "Normalize a = final_sub (if exceeds a
       then (case carry1 a of (t, c) \<Rightarrow> if c \<noteq> 0 then carry2 t c else t) else a)"
  unfolding Normalize_def exceeds_def carry1_def carry2_def final_sub_def Let_def
  by (simp only: prod.case FieldElem.select_convs)

lemma w_and52: "uint ((w :: u64) AND 0xFFFFFFFFFFFFF) = uint w mod 2 ^ 52"
  by (simp add: unsigned_and_eq and52)

lemma w_and48: "uint ((w :: u64) AND 0x0FFFFFFFFFFFF) = uint w mod 2 ^ 48"
  by (simp add: unsigned_and_eq and48)

lemma w_drop: "uint (drop_bit k (w :: u64)) = uint w div 2 ^ k"
proof -
  have "uint (drop_bit k w) = drop_bit k (take_bit LENGTH(64) (uint w))"
    by (rule unsigned_drop_bit_eq)
  also have "take_bit LENGTH(64) (uint w) = uint w"
    using uint_lt2p [of w] by (simp only: take_bit_eq_mod) (intro mod_pos_pos_trivial, simp_all)
  finally show ?thesis by (simp only: drop_bit_eq_div)
qed

lemma w_add:
  fixes c n :: u64
  assumes "uint n < 2 ^ 60"
  shows "uint (drop_bit 52 c + n) = uint c div 2 ^ 52 + uint n"
proof -
  have "uint c < 2 ^ 64" using uint_lt2p [of c] by simp
  then have "0 \<le> uint c div 2 ^ 52 \<and> uint c div 2 ^ 52 < 2 ^ 12"
    by (intro div52_bound) simp_all
  then have "(uint c div 2 ^ 52 + uint n) mod 2 ^ 64 = uint c div 2 ^ 52 + uint n"
    using assms by (intro mod_pos_pos_trivial) simp_all
  then show ?thesis by (simp add: uint_word_ariths w_drop)
qed

lemma w_fold:
  fixes c t :: u64
  assumes "uint c < 2 ^ 13" "uint t < 2 ^ 52"
  shows "uint (c * 0x1000003D1 + t) = uint c * 0x1000003D1 + uint t"
proof -
  have "(uint c * 0x1000003D1 + uint t) mod 2 ^ 64 = uint c * 0x1000003D1 + uint t"
    using assms by (intro mod_pos_pos_trivial) simp_all
  then show ?thesis by (simp add: uint_word_ariths mod_simps)
qed


lemma carry1_ok:
  assumes "uint (n0 a) < 2 ^ 60" "uint (n1 a) < 2 ^ 60" "uint (n2 a) < 2 ^ 60"
    "uint (n3 a) < 2 ^ 60" "uint (n4 a) < 2 ^ 60"
  shows "limbs52 (fst (carry1 a)) \<and> uint (snd (carry1 a)) < 2 ^ 13
     \<and> val (fst (carry1 a)) + uint (snd (carry1 a)) * 2 ^ 256 = val a"
proof -
  define A0 A1 A2 A3 A4 where A_defs: "A0 = uint (n0 a)" "A1 = uint (n1 a)" "A2 = uint (n2 a)"
    "A3 = uint (n3 a)" "A4 = uint (n4 a)"
  define c1 where "c1 = A0 div 2 ^ 52 + A1"
  define c2 where "c2 = c1 div 2 ^ 52 + A2"
  define c3 where "c3 = c2 div 2 ^ 52 + A3"
  define c4 where "c4 = c3 div 2 ^ 52 + A4"
  have t: "uint (n0 (fst (carry1 a))) = A0 mod 2 ^ 52"
    "uint (n1 (fst (carry1 a))) = c1 mod 2 ^ 52"
    "uint (n2 (fst (carry1 a))) = c2 mod 2 ^ 52"
    "uint (n3 (fst (carry1 a))) = c3 mod 2 ^ 52"
    "uint (n4 (fst (carry1 a))) = c4 mod 2 ^ 48"
    "uint (snd (carry1 a)) = c4 div 2 ^ 48"
    using assms
    by (simp_all add: carry1_def Let_def w_and52 w_and48 w_drop w_add A_defs c1_def c2_def
          c3_def c4_def)
  have "0 \<le> A3" by (simp add: A_defs)
  have q3: "0 \<le> c3 div 2 ^ 52 \<and> c3 div 2 ^ 52 < 2 ^ 12"
  proof -
    have eq: "uint (drop_bit 52 (drop_bit 52 (drop_bit 52 (n0 a) + n1 a) + n2 a) + n3 a) = c3"
      using assms by (simp add: w_add w_drop c3_def c2_def c1_def A_defs)
    have "0 \<le> uint (drop_bit 52 (drop_bit 52 (drop_bit 52 (n0 a) + n1 a) + n2 a) + n3 a)"
      by (rule uint_ge_0)
    moreover
    have "uint (drop_bit 52 (drop_bit 52 (drop_bit 52 (n0 a) + n1 a) + n2 a) + n3 a) < 2 ^ 64"
      using uint_lt2p [of "drop_bit 52 (drop_bit 52 (drop_bit 52 (n0 a) + n1 a) + n2 a) + n3 a"]
      by simp
    ultimately have "0 \<le> c3 \<and> c3 < 2 ^ 64" unfolding eq by simp
    then show ?thesis by (intro div52_bound) simp_all
  qed
  have b4: "0 \<le> c4 \<and> c4 < 2 ^ 61" unfolding c4_def using q3 assms(5) by (simp add: A_defs)
  have cc: "0 \<le> c4 div 2 ^ 48 \<and> c4 div 2 ^ 48 < 2 ^ 13"
    using b4 by (intro div48_bound) simp_all
  have lim: "limbs52 (fst (carry1 a))" by (simp add: limbs52_def t)
  have s: "A0 mod 2 ^ 52 = A0 - 2 ^ 52 * (A0 div 2 ^ 52)"
    "c1 mod 2 ^ 52 = A0 div 2 ^ 52 + A1 - 2 ^ 52 * (c1 div 2 ^ 52)"
    "c2 mod 2 ^ 52 = c1 div 2 ^ 52 + A2 - 2 ^ 52 * (c2 div 2 ^ 52)"
    "c3 mod 2 ^ 52 = c2 div 2 ^ 52 + A3 - 2 ^ 52 * (c3 div 2 ^ 52)"
    "c4 mod 2 ^ 48 = c3 div 2 ^ 52 + A4 - 2 ^ 48 * (c4 div 2 ^ 48)"
    using mod52_split [of A0] mod52_split [of c1] mod52_split [of c2] mod52_split [of c3]
      mod48_split [of c4]
    unfolding c1_def [symmetric] c2_def [symmetric] c3_def [symmetric] c4_def [symmetric]
    by linarith+
  have "val (fst (carry1 a)) + uint (snd (carry1 a)) * 2 ^ 256
      = A0 + A1 * 2 ^ 52 + A2 * 2 ^ 104 + A3 * 2 ^ 156 + A4 * 2 ^ 208"
    unfolding val_def t s by simp
  then show ?thesis using lim cc t(6) by (simp add: val_def A_defs)
qed

lemma carry2_ok:
  assumes "limbs52 t" "uint c < 2 ^ 13" "val t + uint c * 0x1000003D1 < 2 ^ 256"
  shows "limbs52 (carry2 t c) \<and> val (carry2 t c) = val t + uint c * 0x1000003D1"
proof -
  define T0 T1 T2 T3 T4 where T_defs: "T0 = uint (n0 t)" "T1 = uint (n1 t)" "T2 = uint (n2 t)"
    "T3 = uint (n3 t)" "T4 = uint (n4 t)"
  have Tb: "T0 < 2 ^ 52" "T1 < 2 ^ 52" "T2 < 2 ^ 52" "T3 < 2 ^ 52" "T4 < 2 ^ 48"
    using assms(1) by (simp_all add: limbs52_def T_defs)
  have Tn: "0 \<le> T0" "0 \<le> T1" "0 \<le> T2" "0 \<le> T3" "0 \<le> T4" by (simp_all add: T_defs)
  define d0 where "d0 = uint c * 0x1000003D1 + T0"
  define d1 where "d1 = d0 div 2 ^ 52 + T1"
  define d2 where "d2 = d1 div 2 ^ 52 + T2"
  define d3 where "d3 = d2 div 2 ^ 52 + T3"
  define d4 where "d4 = d3 div 2 ^ 52 + T4"
  have u: "uint (n0 (carry2 t c)) = d0 mod 2 ^ 52"
    "uint (n1 (carry2 t c)) = d1 mod 2 ^ 52"
    "uint (n2 (carry2 t c)) = d2 mod 2 ^ 52"
    "uint (n3 (carry2 t c)) = d3 mod 2 ^ 52"
    "uint (n4 (carry2 t c)) = d4 mod 2 ^ 48"
    using assms(1,2)
    by (simp_all add: carry2_def Let_def limbs52_def w_and52 w_and48 w_drop w_add w_fold T_defs
          d0_def d1_def d2_def d3_def d4_def)
  have lim: "limbs52 (carry2 t c)" by (simp add: limbs52_def u)
  have s: "d0 mod 2 ^ 52 = uint c * 0x1000003D1 + T0 - 2 ^ 52 * (d0 div 2 ^ 52)"
    "d1 mod 2 ^ 52 = d0 div 2 ^ 52 + T1 - 2 ^ 52 * (d1 div 2 ^ 52)"
    "d2 mod 2 ^ 52 = d1 div 2 ^ 52 + T2 - 2 ^ 52 * (d2 div 2 ^ 52)"
    "d3 mod 2 ^ 52 = d2 div 2 ^ 52 + T3 - 2 ^ 52 * (d3 div 2 ^ 52)"
    "d4 mod 2 ^ 48 = d3 div 2 ^ 52 + T4 - 2 ^ 48 * (d4 div 2 ^ 48)"
    using mod52_split [of d0] mod52_split [of d1] mod52_split [of d2] mod52_split [of d3]
      mod48_split [of d4]
    unfolding d0_def [symmetric] d1_def [symmetric] d2_def [symmetric] d3_def [symmetric]
      d4_def [symmetric]
    by linarith+
  have e: "val (carry2 t c) + (d4 div 2 ^ 48) * 2 ^ 256 = val t + uint c * 0x1000003D1"
    unfolding val_def u s T_defs [symmetric] by simp
  have vn: "0 \<le> val (carry2 t c)" by (simp add: val_def)
  have "d4 div 2 ^ 48 \<le> 0"
  proof (rule ccontr)
    assume "\<not> d4 div 2 ^ 48 \<le> 0"
    then have "1 \<le> d4 div 2 ^ 48" by simp
    then have "1 * 2 ^ 256 \<le> (d4 div 2 ^ 48) * (2 ^ 256 :: int)"
      by (intro mult_right_mono) simp_all
    with e vn assms(3) show False by simp
  qed
  moreover have "0 \<le> d4 div 2 ^ 48"
  proof -
    have "0 \<le> uint c" by simp
    then have "0 \<le> d0" unfolding d0_def using Tn(1) by simp
    then have "0 \<le> d1" unfolding d1_def using Tn(2) by (simp add: pos_imp_zdiv_nonneg_iff)
    then have "0 \<le> d2" unfolding d2_def using Tn(3) by (simp add: pos_imp_zdiv_nonneg_iff)
    then have "0 \<le> d3" unfolding d3_def using Tn(4) by (simp add: pos_imp_zdiv_nonneg_iff)
    then have "0 \<le> d4" unfolding d4_def using Tn(5) by (simp add: pos_imp_zdiv_nonneg_iff)
    then show ?thesis by (simp add: pos_imp_zdiv_nonneg_iff)
  qed
  ultimately have "d4 div 2 ^ 48 = 0" by simp
  with e lim show ?thesis by simp
qed


lemma final_sub_ok:
  assumes "limbs52 a"
  shows "canonical (final_sub a) \<and> val (final_sub a) = val a mod P"
proof -
  define A0 A1 A2 A3 A4 where A_defs: "A0 = uint (n0 a)" "A1 = uint (n1 a)" "A2 = uint (n2 a)"
    "A3 = uint (n3 a)" "A4 = uint (n4 a)"
  have Ab: "A0 < 2 ^ 52" "A1 < 2 ^ 52" "A2 < 2 ^ 52" "A3 < 2 ^ 52" "A4 < 2 ^ 48"
    using assms by (simp_all add: limbs52_def A_defs)
  have An: "0 \<le> A0" "0 \<le> A1" "0 \<le> A2" "0 \<le> A3" "0 \<le> A4" by (simp_all add: A_defs)
  have v: "val a = A0 + A1 * 2 ^ 52 + A2 * 2 ^ 104 + A3 * 2 ^ 156 + A4 * 2 ^ 208"
    by (simp add: val_def A_defs)
  have cond: "(n4 a = 0xFFFFFFFFFFFF \<and> n3 a = 0xFFFFFFFFFFFFF \<and> n2 a = 0xFFFFFFFFFFFFF
           \<and> n1 a = 0xFFFFFFFFFFFFF \<and> n0 a \<ge> 0xFFFFEFFFFFC2F)
      \<longleftrightarrow> (A4 = 0xFFFFFFFFFFFF \<and> A3 = 0xFFFFFFFFFFFFF \<and> A2 = 0xFFFFFFFFFFFFF
           \<and> A1 = 0xFFFFFFFFFFFFF \<and> 0xFFFFEFFFFFC2F \<le> A0)"
    by (simp add: word_uint_eq_iff word_le_def A_defs)
  show ?thesis
  proof (cases "A4 = 0xFFFFFFFFFFFF \<and> A3 = 0xFFFFFFFFFFFFF \<and> A2 = 0xFFFFFFFFFFFFF
           \<and> A1 = 0xFFFFFFFFFFFFF \<and> 0xFFFFEFFFFFC2F \<le> A0")
    case True
    then have f: "final_sub a = \<lparr>n0 = n0 a - 0xFFFFEFFFFFC2F, n1 = 0, n2 = 0, n3 = 0, n4 = 0\<rparr>"
      using cond by (simp add: final_sub_def)
    have "uint (0xFFFFEFFFFFC2F :: u64) \<le> uint (n0 a)" using True by (simp add: A_defs)
    then have "uint (n0 a - 0xFFFFEFFFFFC2F) = uint (n0 a) - uint (0xFFFFEFFFFFC2F :: u64)"
      by (simp only: uint_sub_lem)
    then have u0: "uint (n0 a - 0xFFFFEFFFFFC2F) = A0 - 0xFFFFEFFFFFC2F" by (simp add: A_defs)
    have vf: "val (final_sub a) = A0 - 0xFFFFEFFFFFC2F" by (simp add: f val_def u0)
    have va: "val a = (A0 - 0xFFFFEFFFFFC2F) + P" using True by (simp add: v P_def)
    have r: "0 \<le> A0 - 0xFFFFEFFFFFC2F" "A0 - 0xFFFFEFFFFFC2F < P"
      using True Ab(1) by (simp_all add: P_def)
    have "val a mod P = A0 - 0xFFFFEFFFFFC2F"
      unfolding va using r by (simp add: mod_pos_pos_trivial)
    moreover have "canonical (final_sub a)"
      using r Ab(1) by (simp add: canonical_def f vf [unfolded f] u0)
    ultimately show ?thesis using vf by simp
  next
    case False
    then have "\<not> (n4 a = 0xFFFFFFFFFFFF \<and> n3 a = 0xFFFFFFFFFFFFF \<and> n2 a = 0xFFFFFFFFFFFFF
           \<and> n1 a = 0xFFFFFFFFFFFFF \<and> n0 a \<ge> 0xFFFFEFFFFFC2F)"
      using cond by blast
    then have f: "final_sub a = a" by (simp only: final_sub_def if_False)
    have "val a < P"
    proof (rule ccontr)
      assume "\<not> val a < P"
      then have ge: "2 ^ 256 - 2 ^ 32 - 977 \<le> A0 + A1 * 2 ^ 52 + A2 * 2 ^ 104 + A3 * 2 ^ 156 + A4 * 2 ^ 208"
        by (simp add: v P_def)
      have "A4 = 0xFFFFFFFFFFFF" using ge Ab An by simp
      moreover have "A3 = 0xFFFFFFFFFFFFF" using ge Ab An by simp
      moreover have "A2 = 0xFFFFFFFFFFFFF" using ge Ab An by simp
      moreover have "A1 = 0xFFFFFFFFFFFFF" using ge Ab An by simp
      moreover have "0xFFFFEFFFFFC2F \<le> A0" using ge Ab An by simp
      ultimately show False using False by simp
    qed
    moreover have "0 \<le> val a" by (simp add: val_def)
    ultimately have "val a mod P = val a" by (simp add: mod_pos_pos_trivial)
    moreover have "canonical a" using assms \<open>val a < P\<close> by (simp add: canonical_def limbs52_def)
    ultimately show ?thesis by (simp add: f)
  qed
qed

text \<open>\<open>Normalize\<close> is right exactly off the dropped carry: when the value is below
  \<open>2^256\<close>, or folding the overflow does not reach \<open>2^256\<close> again.\<close>

lemma Normalize_ok:
  assumes lim: "uint (n0 a) < 2 ^ 60" "uint (n1 a) < 2 ^ 60" "uint (n2 a) < 2 ^ 60"
    "uint (n3 a) < 2 ^ 60" "uint (n4 a) < 2 ^ 60"
    and fold: "val a mod 2 ^ 256 + (val a div 2 ^ 256) * 0x1000003D1 < 2 ^ 256"
  shows "canonical (Normalize a) \<and> val (Normalize a) = val a mod P"
proof -
  define a' where "a' = (if exceeds a
       then (case carry1 a of (t, c) \<Rightarrow> if c \<noteq> 0 then carry2 t c else t) else a)"
  have "limbs52 a' \<and> val a' mod P = val a mod P"
  proof (cases "exceeds a")
    case False
    then have "limbs52 a"
      by (simp add: exceeds_def limbs52_def word_less_def not_less word_le_def)
    with False show ?thesis by (simp add: a'_def)
  next
    case True
    obtain t c where tc: "carry1 a = (t, c)" by (cases "carry1 a")
    from carry1_ok [OF lim] tc have t: "limbs52 t" "uint c < 2 ^ 13"
      "val t + uint c * 2 ^ 256 = val a" by simp_all
    have tn: "0 \<le> val t" by (simp add: val_def)
    have tb: "val t < 2 ^ 256" using t(1) by (simp add: limbs52_def val_def)
    have dm: "val a div 2 ^ 256 = uint c \<and> val a mod 2 ^ 256 = val t"
    proof -
      have "val a = uint c * 2 ^ 256 + val t" using t(3) by simp
      then show ?thesis using tn tb
        by (simp add: div_pos_pos_trivial mod_pos_pos_trivial)
    qed
    show ?thesis
    proof (cases "c = 0")
      case True
      then have "a' = t" using \<open>exceeds a\<close> tc by (simp add: a'_def)
      moreover have "val t = val a" using t(3) True by simp
      ultimately show ?thesis using t(1) by simp
    next
      case False
      then have a': "a' = carry2 t c" using \<open>exceeds a\<close> tc by (simp add: a'_def)
      have "val t + uint c * 0x1000003D1 < 2 ^ 256" using fold dm by simp
      from carry2_ok [OF t(1,2) this]
      have c2: "limbs52 (carry2 t c)" "val (carry2 t c) = val t + uint c * 0x1000003D1"
        by simp_all
      have "val a = val (carry2 t c) + uint c * P"
        using t(3) c2(2) by (simp add: P_def algebra_simps)
      then have "val a mod P = val (carry2 t c) mod P" by simp
      with c2(1) a' show ?thesis by simp
    qed
  qed
  moreover have "Normalize a = final_sub a'" by (simp add: Normalize_stages a'_def)
  ultimately show ?thesis using final_sub_ok [of a'] by (simp add: mod_mod_trivial)
qed

section \<open>The exponentiation chains\<close>

lemma pw_self: "operand a \<Longrightarrow> pw a 1 a"
  by (simp add: pw_def)

lemma pw_mult:
  assumes "pw a e x" "pw a k y"
  shows "\<exists>r. SetMult x y = Some r \<and> mult_out r \<and> pw a (e + k) r"
proof -
  from assms have ox: "operand x" and oy: "operand y" by (simp_all add: pw_def)
  from SetMult_ok [OF ox oy] obtain r where r: "SetMult x y = Some r" "mult_out r"
    "val r mod P = (val x * val y) mod P" by blast
  have "(val x * val y) mod P = ((val x mod P) * (val y mod P)) mod P"
    by (simp add: mod_mult_eq)
  also have "\<dots> = ((val a ^ e mod P) * (val a ^ k mod P)) mod P"
    using assms by (simp add: pw_def)
  also have "\<dots> = val a ^ (e + k) mod P"
    by (simp add: mod_mult_eq power_add)
  finally have "pw a (e + k) r" using r by (simp add: pw_def mult_out_operand)
  with r show ?thesis by blast
qed

lemma pw_square:
  assumes "pw a e x"
  shows "\<exists>r. SetSquare x = Some r \<and> mult_out r \<and> pw a (2 * e) r"
proof -
  from assms have ox: "operand x" by (simp add: pw_def)
  from SetSquare_ok [OF ox] obtain r where r: "SetSquare x = Some r" "mult_out r"
    "val r mod P = (val x * val x) mod P" by blast
  have "(val x * val x) mod P = ((val x mod P) * (val x mod P)) mod P"
    by (simp add: mod_mult_eq)
  also have "\<dots> = ((val a ^ e mod P) * (val a ^ e mod P)) mod P"
    using assms by (simp add: pw_def)
  also have "\<dots> = val a ^ (2 * e) mod P"
    by (simp add: mod_mult_eq power_add mult_2)
  finally have "pw a (2 * e) r" using r by (simp add: pw_def mult_out_operand)
  with r show ?thesis by blast
qed

lemma square_n_pw:
  "pw a e x \<Longrightarrow> \<exists>r. square_n j x = Some r \<and> pw a (e * 2 ^ j) r"
proof (induction j arbitrary: x e)
  case 0
  then show ?case by simp
next
  case (Suc j)
  from pw_square [OF Suc.prems] obtain y where y: "SetSquare x = Some y" "pw a (2 * e) y"
    by blast
  from Suc.IH [OF y(2)] obtain r where "square_n j y = Some r" "pw a (2 * e * 2 ^ j) r"
    by blast
  with y(1) show ?case by (simp add: mult.assoc mult.left_commute)
qed

lemma square_mult_n_pw:
  "pw a e x \<Longrightarrow> pw a k m \<Longrightarrow> \<exists>r. square_mult_n i m x = Some r \<and> pw a (chain_exp i k e) r"
proof (induction i arbitrary: x e)
  case 0
  then show ?case by simp
next
  case (Suc i)
  from square_n_pw [OF Suc.prems(1), of 10] obtain y where
    y: "square_n 10 x = Some y" "pw a (e * 2 ^ 10) y" by blast
  from pw_mult [OF y(2) Suc.prems(2)] obtain z where
    z: "SetMult y m = Some z" "pw a (e * 2 ^ 10 + k) z" by blast
  have "pw a (e * 1024 + k) z" using z(2) by simp
  from Suc.IH [OF this Suc.prems(2)] obtain r where
    "square_mult_n i m z = Some r" "pw a (chain_exp i k (e * 1024 + k)) r" by blast
  with y(1) z(1) show ?case by simp
qed

lemma chain_exp_numeral [simp]:
  "chain_exp (numeral n) k e = chain_exp (pred_numeral n) k (e * 1024 + k)"
  by (simp add: numeral_eq_Suc)

lemma SetInverse_power:
  assumes "operand a"
  shows "\<exists>r. SetInverse a = Some r \<and> mult_out r
     \<and> val r mod P
        = val a ^ 0x9e799e6799e6799e6799e6799e6799e6799e6799e6799e6799e6799de799e41d mod P"
proof -
  note a = pw_self [OF assms]
  from pw_square [OF a] obtain a2 where a2: "SetSquare a = Some a2" "pw a 2 a2" by auto
  from pw_mult [OF a2(2) a] obtain a3 where a3: "SetMult a2 a = Some a3" "pw a 3 a3" by auto
  have a4: "SetSquare a = Some a2" "pw a 2 a2" by fact+
  have a5: "SetMult a2 a = Some a3" "pw a 3 a3" by fact+
  from pw_square [OF a5(2)] obtain a10 where a10: "SetSquare a3 = Some a10" "pw a 6 a10" by auto
  from pw_mult [OF a10(2) a] obtain a11 where a11: "SetMult a10 a = Some a11" "pw a 7 a11" by auto
  from pw_mult [OF a11(2) a10(2)] obtain a21 where
    a21: "SetMult a11 a10 = Some a21" "pw a 13 a21" by auto
  from pw_square [OF a21(2)] obtain a42 where a42: "SetSquare a21 = Some a42" "pw a 26 a42" by auto
  from pw_mult [OF a42(2) a3(2)] obtain a45 where
    a45: "SetMult a42 a3 = Some a45" "pw a 29 a45" by auto
  from pw_mult [OF a42(2) a21(2)] obtain a63 where
    a63: "SetMult a42 a21 = Some a63" "pw a 39 a63" by auto
  from pw_square [OF a63(2)] obtain a126 where
    a126: "SetSquare a63 = Some a126" "pw a 78 a126" by auto
  from pw_square [OF a126(2)] obtain a252 where
    a252: "SetSquare a126 = Some a252" "pw a 156 a252" by auto
  from pw_square [OF a252(2)] obtain a504 where
    a504: "SetSquare a252 = Some a504" "pw a 312 a504" by auto
  from pw_square [OF a504(2)] obtain a1008 where
    a1008: "SetSquare a504 = Some a1008" "pw a 624 a1008" by auto
  from pw_mult [OF a1008(2) a11(2)] obtain a1019 where
    a1019: "SetMult a1008 a11 = Some a1019" "pw a 631 a1019" by auto
  from pw_mult [OF a1019(2) a2(2)] obtain a1023 where
    a1023: "SetMult a1019 a2 = Some a1023" "pw a 633 a1023" by auto
  from square_mult_n_pw [OF a63(2) a1023(2), of 21] obtain x1 where
    x1: "square_mult_n 21 a1023 a63 = Some x1" "pw a (chain_exp 21 633 39) x1" by blast
  from square_n_pw [OF x1(2), of 10] obtain x2 where
    x2: "square_n 10 x1 = Some x2" "pw a (chain_exp 21 633 39 * 2 ^ 10) x2" by blast
  from pw_mult [OF x2(2) a1019(2)] obtain x3 where
    x3: "SetMult x2 a1019 = Some x3" "pw a (chain_exp 21 633 39 * 2 ^ 10 + 631) x3" by blast
  from square_mult_n_pw [OF x3(2) a1023(2), of 2] obtain x4 where
    x4: "square_mult_n 2 a1023 x3 = Some x4"
      "pw a (chain_exp 2 633 (chain_exp 21 633 39 * 2 ^ 10 + 631)) x4" by blast
  from square_n_pw [OF x4(2), of 10] obtain x5 where
    x5: "square_n 10 x4 = Some x5"
      "pw a (chain_exp 2 633 (chain_exp 21 633 39 * 2 ^ 10 + 631) * 2 ^ 10) x5" by blast
  from pw_mult [OF x5(2) a45(2)] obtain r where
    r: "SetMult x5 a45 = Some r" "mult_out r"
      "pw a (chain_exp 2 633 (chain_exp 21 633 39 * 2 ^ 10 + 631) * 2 ^ 10 + 29) r" by blast
  have e: "chain_exp 2 633 (chain_exp 21 633 39 * 2 ^ 10 + 631) * 2 ^ 10 + 29
      = 0x9e799e6799e6799e6799e6799e6799e6799e6799e6799e6799e6799de799e41d"
    by simp
  have run: "SetInverse a = Some r"
    unfolding SetInverse_def
    by (simp add: a2 a3 a10 a11 a21 a42 a45 a63 a126 a252 a504 a1008 a1019 a1023 x1 x2 x3 x4 x5 r
          del: square_n.simps square_mult_n.simps)
  from r(3) have "val r mod P
        = val a ^ 0x9e799e6799e6799e6799e6799e6799e6799e6799e6799e6799e6799de799e41d mod P"
    unfolding e by (simp add: pw_def)
  with run r(2) show ?thesis by blast
qed

text \<open>\<open>SetSquareRoot\<close> reaches the exponent \<open>(p + 1) / 4\<close>.\<close>

lemma SetSquareRoot_power:
  assumes "operand a"
  shows "\<exists>r. SetSquareRoot a = Some r \<and> mult_out r
     \<and> val r mod P
        = val a ^ 0x3fffffffffffffffffffffffffffffffffffffffffffffffffffffffbfffff0c mod P"
proof -
  note a = pw_self [OF assms]
  from pw_square [OF a] obtain a2 where a2: "SetSquare a = Some a2" "pw a 2 a2" by auto
  from pw_mult [OF a2(2) a] obtain a3 where a3: "SetMult a2 a = Some a3" "pw a 3 a3" by auto
  from pw_square [OF a3(2)] obtain a6 where a6: "SetSquare a3 = Some a6" "pw a 6 a6" by auto
  from pw_square [OF a6(2)] obtain a12 where a12: "SetSquare a6 = Some a12" "pw a 12 a12" by auto
  from pw_mult [OF a12(2) a3(2)] obtain a15 where
    a15: "SetMult a12 a3 = Some a15" "pw a 15 a15" by auto
  from pw_square [OF a15(2)] obtain a30 where a30: "SetSquare a15 = Some a30" "pw a 30 a30" by auto
  from pw_square [OF a30(2)] obtain a60 where a60: "SetSquare a30 = Some a60" "pw a 60 a60" by auto
  from pw_square [OF a60(2)] obtain a120 where
    a120: "SetSquare a60 = Some a120" "pw a 120 a120" by auto
  from pw_square [OF a120(2)] obtain a240 where
    a240: "SetSquare a120 = Some a240" "pw a 240 a240" by auto
  from pw_mult [OF a240(2) a15(2)] obtain a255 where
    a255: "SetMult a240 a15 = Some a255" "pw a 255 a255" by auto
  from pw_square [OF a255(2)] obtain a510 where
    a510: "SetSquare a255 = Some a510" "pw a 510 a510" by auto
  from pw_mult [OF a510(2) a240(2)] obtain a750 where
    a750: "SetMult a510 a240 = Some a750" "pw a 750 a750" by auto
  from pw_mult [OF a750(2) a30(2)] obtain a780 where
    a780: "SetMult a750 a30 = Some a780" "pw a 780 a780" by auto
  from pw_square [OF a510(2)] obtain a1020 where
    a1020: "SetSquare a510 = Some a1020" "pw a 1020 a1020" by auto
  from pw_mult [OF a1020(2) a2(2)] obtain a1022 where
    a1022: "SetMult a1020 a2 = Some a1022" "pw a 1022 a1022" by auto
  from pw_mult [OF a1022(2) a] obtain a1023 where
    a1023: "SetMult a1022 a = Some a1023" "pw a 1023 a1023" by auto
  from square_mult_n_pw [OF a15(2) a1023(2), of 21] obtain x1 where
    x1: "square_mult_n 21 a1023 a15 = Some x1" "pw a (chain_exp 21 1023 15) x1" by blast
  from square_n_pw [OF x1(2), of 10] obtain x2 where
    x2: "square_n 10 x1 = Some x2" "pw a (chain_exp 21 1023 15 * 2 ^ 10) x2" by blast
  from pw_mult [OF x2(2) a1022(2)] obtain x3 where
    x3: "SetMult x2 a1022 = Some x3" "pw a (chain_exp 21 1023 15 * 2 ^ 10 + 1022) x3" by blast
  from square_mult_n_pw [OF x3(2) a1023(2), of 2] obtain x4 where
    x4: "square_mult_n 2 a1023 x3 = Some x4"
      "pw a (chain_exp 2 1023 (chain_exp 21 1023 15 * 2 ^ 10 + 1022)) x4" by blast
  from square_n_pw [OF x4(2), of 10] obtain x5 where
    x5: "square_n 10 x4 = Some x5"
      "pw a (chain_exp 2 1023 (chain_exp 21 1023 15 * 2 ^ 10 + 1022) * 2 ^ 10) x5" by blast
  from pw_mult [OF x5(2) a780(2)] obtain r where
    r: "SetMult x5 a780 = Some r" "mult_out r"
      "pw a (chain_exp 2 1023 (chain_exp 21 1023 15 * 2 ^ 10 + 1022) * 2 ^ 10 + 780) r" by blast
  have e: "chain_exp 2 1023 (chain_exp 21 1023 15 * 2 ^ 10 + 1022) * 2 ^ 10 + 780
      = 0x3fffffffffffffffffffffffffffffffffffffffffffffffffffffffbfffff0c"
    by simp
  have run: "SetSquareRoot a = Some r"
    unfolding SetSquareRoot_def
    by (simp add: a2 a3 a6 a12 a15 a30 a60 a120 a240 a255 a510 a750 a780 a1020 a1022 a1023
          x1 x2 x3 x4 x5 r del: square_n.simps square_mult_n.simps)
  from r(3) have "val r mod P
        = val a ^ 0x3fffffffffffffffffffffffffffffffffffffffffffffffffffffffbfffff0c mod P"
    unfolding e by (simp add: pw_def)
  with run r(2) show ?thesis by blast
qed

section \<open>Limb bounds under negation, addition and scaling; comparison\<close>

lemma mult_out_lim: "mult_out r \<Longrightarrow> lim 1 r"
  by (simp add: mult_out_def lim_def)

lemma limbs52_lim: "limbs52 r \<Longrightarrow> lim 1 r"
  by (simp add: limbs52_def lim_def)

lemma lim_operand: "lim k a \<Longrightarrow> k \<le> 8 \<Longrightarrow> operand a"
proof -
  assume a: "lim k a" "k \<le> 8"
  have "k * (2 ^ 52 + 2 ^ 25) \<le> 8 * (2 ^ 52 + 2 ^ 25 :: int)" "k * 2 ^ 48 \<le> 8 * (2 ^ 48 :: int)"
    using a(2) by simp_all
  with a(1) show ?thesis by (simp add: lim_def operand_def)
qed

lemma lim_SetNeg:
  assumes "lim m a" "0 \<le> m" "m \<le> 8"
  shows "lim (m + 1) (SetNeg a m) \<and> val (SetNeg a m) = (m + 1) * P - val a"
proof -
  define k :: u64 where "k = word_of_int (m + 1)"
  have uk: "uint k = m + 1"
  proof -
    have "(m + 1) mod 2 ^ 64 = m + 1" using assms(2,3) by (intro mod_pos_pos_trivial) simp_all
    then show ?thesis unfolding k_def uint_word_of_int by simp
  qed
  have mb: "m * (2 ^ 52 + 2 ^ 25) \<le> 8 * (2 ^ 52 + 2 ^ 25 :: int)" "m * 2 ^ 48 \<le> 8 * (2 ^ 48 :: int)"
    using assms(3) by simp_all
  have prod: "uint (L * k) = uint L * (m + 1)" if "uint L < 2 ^ 52" for L :: u64
  proof -
    have "0 \<le> uint L * (m + 1)" using assms(2) by simp
    moreover have "uint L * (m + 1) \<le> 2 ^ 52 * 9"
      using that assms(2,3) by (intro mult_mono) simp_all
    ultimately have "(uint L * (m + 1)) mod 2 ^ 64 = uint L * (m + 1)"
      by (intro mod_pos_pos_trivial) simp_all
    then show ?thesis by (simp add: uint_word_ariths uk)
  qed
  have sub: "uint (L * k - x) = uint L * (m + 1) - uint x"
    if "uint L < 2 ^ 52" "uint x \<le> uint L * (m + 1)" for L x :: u64
  proof -
    have "uint x \<le> uint (L * k)" using that by (simp add: prod)
    then have "uint (L * k - x) = uint (L * k) - uint x" by (simp only: uint_sub_lem)
    then show ?thesis using that(1) by (simp add: prod)
  qed
  have le0: "m * (2 ^ 52 + 2 ^ 25) \<le> 0xFFFFEFFFFFC2F * (m + 1)" using assms(2,3) by simp
  have le1: "m * (2 ^ 52 + 2 ^ 25) \<le> 0xFFFFFFFFFFFFF * (m + 1)" using assms(2,3) by simp
  have le4: "m * 2 ^ 48 \<le> 0x0FFFFFFFFFFFF * (m + 1)" using assms(2,3) by simp
  have u: "uint (n0 (SetNeg a m)) = 0xFFFFEFFFFFC2F * (m + 1) - uint (n0 a)"
    "uint (n1 (SetNeg a m)) = 0xFFFFFFFFFFFFF * (m + 1) - uint (n1 a)"
    "uint (n2 (SetNeg a m)) = 0xFFFFFFFFFFFFF * (m + 1) - uint (n2 a)"
    "uint (n3 (SetNeg a m)) = 0xFFFFFFFFFFFFF * (m + 1) - uint (n3 a)"
    "uint (n4 (SetNeg a m)) = 0x0FFFFFFFFFFFF * (m + 1) - uint (n4 a)"
    using assms(1) le0 le1 le4 unfolding SetNeg_def k_def [symmetric] lim_def
    by (simp_all add: sub)
  have l: "lim (m + 1) (SetNeg a m)"
    unfolding lim_def u using assms(2) by (simp add: algebra_simps)
  have "val (SetNeg a m) = (m + 1) * P - val a"
    unfolding val_def u P_def by (simp add: algebra_simps)
  with l show ?thesis by simp
qed

lemma lim_add:
  assumes "lim j a" "lim k b" "j + k \<le> 16"
  shows "lim (j + k) (add a b) \<and> val (add a b) = val a + val b"
proof -
  have s: "uint (x + y) = uint x + uint y" if "uint x + uint y \<le> 16 * (2 ^ 52 + 2 ^ 25)"
    for x y :: u64
  proof -
    have "(uint x + uint y) mod 2 ^ 64 = uint x + uint y"
      using that by (intro mod_pos_pos_trivial) simp_all
    then show ?thesis by (simp add: uint_word_ariths)
  qed
  have b: "(j + k) * (2 ^ 52 + 2 ^ 25) \<le> 16 * (2 ^ 52 + 2 ^ 25 :: int)"
    "(j + k) * 2 ^ 48 \<le> 16 * (2 ^ 52 + 2 ^ 25 :: int)"
    using assms(3) by simp_all
  have le: "uint (n0 a) + uint (n0 b) \<le> (j + k) * (2 ^ 52 + 2 ^ 25)"
    "uint (n1 a) + uint (n1 b) \<le> (j + k) * (2 ^ 52 + 2 ^ 25)"
    "uint (n2 a) + uint (n2 b) \<le> (j + k) * (2 ^ 52 + 2 ^ 25)"
    "uint (n3 a) + uint (n3 b) \<le> (j + k) * (2 ^ 52 + 2 ^ 25)"
    "uint (n4 a) + uint (n4 b) \<le> (j + k) * 2 ^ 48"
    using assms(1,2) by (simp_all add: lim_def algebra_simps)
  have u: "uint (n0 (add a b)) = uint (n0 a) + uint (n0 b)"
    "uint (n1 (add a b)) = uint (n1 a) + uint (n1 b)"
    "uint (n2 (add a b)) = uint (n2 a) + uint (n2 b)"
    "uint (n3 (add a b)) = uint (n3 a) + uint (n3 b)"
    "uint (n4 (add a b)) = uint (n4 a) + uint (n4 b)"
    unfolding add_def using le b by (simp_all add: s)
  have "lim (j + k) (add a b)" unfolding lim_def u using le by simp
  moreover have "val (add a b) = val a + val b" unfolding val_def u by (simp add: algebra_simps)
  ultimately show ?thesis by simp
qed

lemma lim_scale:
  assumes "lim k a" "0 \<le> v" "0 \<le> k" "k * v \<le> 16"
  shows "lim (k * v) (scale a v) \<and> val (scale a v) = v * val a"
proof -
  define w :: u64 where "w = word_of_int v"
  have vb: "v \<le> 16 \<or> k = 0"
  proof (cases "k = 0")
    case False
    then have "1 \<le> k" using assms(3) by simp
    then have "1 * v \<le> k * v" using assms(2) by (intro mult_right_mono) simp_all
    then show ?thesis using assms(4) by simp
  qed simp
  have s: "uint (x * w) = uint x * v" if "uint x * v \<le> 16 * (2 ^ 52 + 2 ^ 25)" for x :: u64
  proof -
    have "uint (x * w) = (uint x * (v mod 2 ^ 64)) mod 2 ^ 64"
      by (simp add: uint_word_ariths w_def uint_word_of_int)
    also have "\<dots> = (uint x * v) mod 2 ^ 64" by (simp add: mod_simps)
    also have "\<dots> = uint x * v"
      using that assms(2) by (intro mod_pos_pos_trivial) simp_all
    finally show ?thesis .
  qed
  have b: "(k * v) * (2 ^ 52 + 2 ^ 25) \<le> 16 * (2 ^ 52 + 2 ^ 25 :: int)"
    "(k * v) * 2 ^ 48 \<le> 16 * (2 ^ 52 + 2 ^ 25 :: int)"
    using assms(4) by simp_all
  have le: "uint (n0 a) * v \<le> (k * v) * (2 ^ 52 + 2 ^ 25)"
    "uint (n1 a) * v \<le> (k * v) * (2 ^ 52 + 2 ^ 25)"
    "uint (n2 a) * v \<le> (k * v) * (2 ^ 52 + 2 ^ 25)"
    "uint (n3 a) * v \<le> (k * v) * (2 ^ 52 + 2 ^ 25)"
    "uint (n4 a) * v \<le> (k * v) * 2 ^ 48"
  proof -
    have m: "x * v \<le> (k * v) * B" if "x \<le> k * B" for x B :: int
    proof -
      have "x * v \<le> (k * B) * v" using that assms(2) by (intro mult_right_mono) simp_all
      then show ?thesis by (simp add: algebra_simps)
    qed
    show "uint (n0 a) * v \<le> (k * v) * (2 ^ 52 + 2 ^ 25)"
      "uint (n1 a) * v \<le> (k * v) * (2 ^ 52 + 2 ^ 25)"
      "uint (n2 a) * v \<le> (k * v) * (2 ^ 52 + 2 ^ 25)"
      "uint (n3 a) * v \<le> (k * v) * (2 ^ 52 + 2 ^ 25)"
      "uint (n4 a) * v \<le> (k * v) * 2 ^ 48"
      using assms(1) unfolding lim_def by (auto intro!: m)
  qed
  have u: "uint (n0 (scale a v)) = uint (n0 a) * v"
    "uint (n1 (scale a v)) = uint (n1 a) * v"
    "uint (n2 (scale a v)) = uint (n2 a) * v"
    "uint (n3 (scale a v)) = uint (n3 a) * v"
    "uint (n4 (scale a v)) = uint (n4 a) * v"
    unfolding scale_def w_def [symmetric] using le b by (simp_all add: s)
  have "lim (k * v) (scale a v)" unfolding lim_def u using le by simp
  moreover have "val (scale a v) = v * val a" unfolding val_def u by (simp add: algebra_simps)
  ultimately show ?thesis by simp
qed

lemma split_limb:
  fixes x y r s :: int
  assumes "0 \<le> x" "x < 2 ^ 52" "0 \<le> y" "y < 2 ^ 52" "x + 2 ^ 52 * r = y + 2 ^ 52 * s"
  shows "x = y \<and> r = s"
proof -
  have "x = (x + 2 ^ 52 * r) mod 2 ^ 52" using assms(1,2) by (simp add: mod_pos_pos_trivial)
  also have "\<dots> = (y + 2 ^ 52 * s) mod 2 ^ 52" by (simp only: assms(5))
  also have "\<dots> = y" using assms(3,4) by (simp add: mod_pos_pos_trivial)
  finally have "x = y" .
  with assms(5) show ?thesis by simp
qed

lemma limbs52_unique:
  assumes "limbs52 a" "limbs52 b" "val a = val b"
  shows "a = b"
proof -
  have e: "uint (n0 a) + 2 ^ 52 * (uint (n1 a) + 2 ^ 52 * (uint (n2 a) + 2 ^ 52 * (uint (n3 a)
             + 2 ^ 52 * uint (n4 a))))
         = uint (n0 b) + 2 ^ 52 * (uint (n1 b) + 2 ^ 52 * (uint (n2 b) + 2 ^ 52 * (uint (n3 b)
             + 2 ^ 52 * uint (n4 b))))"
    using assms(3) by (simp add: val_def algebra_simps)
  have la: "uint (n0 a) < 2 ^ 52" "uint (n1 a) < 2 ^ 52" "uint (n2 a) < 2 ^ 52"
    "uint (n3 a) < 2 ^ 52" using assms(1) by (simp_all add: limbs52_def)
  have lb: "uint (n0 b) < 2 ^ 52" "uint (n1 b) < 2 ^ 52" "uint (n2 b) < 2 ^ 52"
    "uint (n3 b) < 2 ^ 52" using assms(2) by (simp_all add: limbs52_def)
  from split_limb [OF _ la(1) _ lb(1) e] have e0: "uint (n0 a) = uint (n0 b)"
    and e1: "uint (n1 a) + 2 ^ 52 * (uint (n2 a) + 2 ^ 52 * (uint (n3 a) + 2 ^ 52 * uint (n4 a)))
         = uint (n1 b) + 2 ^ 52 * (uint (n2 b) + 2 ^ 52 * (uint (n3 b) + 2 ^ 52 * uint (n4 b)))"
    by simp_all
  from split_limb [OF _ la(2) _ lb(2) e1] have e1': "uint (n1 a) = uint (n1 b)"
    and e2: "uint (n2 a) + 2 ^ 52 * (uint (n3 a) + 2 ^ 52 * uint (n4 a))
         = uint (n2 b) + 2 ^ 52 * (uint (n3 b) + 2 ^ 52 * uint (n4 b))"
    by simp_all
  from split_limb [OF _ la(3) _ lb(3) e2] have e2': "uint (n2 a) = uint (n2 b)"
    and e3: "uint (n3 a) + 2 ^ 52 * uint (n4 a) = uint (n3 b) + 2 ^ 52 * uint (n4 b)"
    by simp_all
  from split_limb [OF _ la(4) _ lb(4) e3] have e3': "uint (n3 a) = uint (n3 b)"
    and e4: "uint (n4 a) = uint (n4 b)"
    by simp_all
  have "n0 a = n0 b" "n1 a = n1 b" "n2 a = n2 b" "n3 a = n3 b" "n4 a = n4 b"
    using e0 e1' e2' e3' e4 by (simp_all add: word_uint_eq_iff)
  then show ?thesis by simp
qed

lemma canonical_limbs52: "canonical a \<Longrightarrow> limbs52 a"
  by (simp add: canonical_def limbs52_def)

text \<open>The operands on which \<open>Normalize\<close> is right (see \<open>Normalize_ok\<close>).\<close>

lemma Normalize_carry_free:
  "carry_free a \<Longrightarrow> canonical (Normalize a) \<and> val (Normalize a) = val a mod P"
  unfolding carry_free_def by (intro Normalize_ok) simp_all

lemma limbs52_carry_free: "limbs52 a \<Longrightarrow> carry_free a"
proof -
  assume l: "limbs52 a"
  have "0 \<le> val a" by (simp add: val_def)
  moreover have "val a < 2 ^ 256" using l by (simp add: limbs52_def val_def)
  ultimately have "val a div 2 ^ 256 = 0" "val a mod 2 ^ 256 = val a"
    by (simp_all add: div_pos_pos_trivial mod_pos_pos_trivial)
  with l \<open>val a < 2 ^ 256\<close> show ?thesis by (simp add: carry_free_def limbs52_def)
qed

lemma mult_out_carry_free: "mult_out a \<Longrightarrow> carry_free a"
proof -
  assume m: "mult_out a"
  have n: "0 \<le> val a" by (simp add: val_def)
  have b: "val a < 2 ^ 256 + 2 ^ 77" using m by (simp add: mult_out_def val_def)
  have "val a mod 2 ^ 256 + (val a div 2 ^ 256) * 0x1000003D1 < 2 ^ 256"
  proof (cases "val a < 2 ^ 256")
    case True
    then have "val a div 2 ^ 256 = 0" "val a mod 2 ^ 256 = val a"
      using n by (simp_all add: div_pos_pos_trivial mod_pos_pos_trivial)
    with True show ?thesis by simp
  next
    case False
    define r where "r = val a - 2 ^ 256"
    have r: "0 \<le> r" "r < 2 ^ 77" using False b by (simp_all add: r_def)
    have "val a = r + 2 ^ 256 * 1" by (simp add: r_def)
    moreover have "(r + 2 ^ 256 * 1) div 2 ^ 256 = 1" "(r + 2 ^ 256 * 1) mod 2 ^ 256 = r"
      using r by (simp_all add: div_pos_pos_trivial mod_pos_pos_trivial)
    ultimately have "val a div 2 ^ 256 = 1" "val a mod 2 ^ 256 = r" by simp_all
    with r show ?thesis by simp
  qed
  with m show ?thesis by (simp add: carry_free_def mult_out_def)
qed

lemma equals_carry_free:
  assumes "carry_free a" "carry_free b"
  shows "equals a b = (val a mod P = val b mod P, Normalize a, Normalize b)"
proof -
  from Normalize_carry_free [OF assms(1)] Normalize_carry_free [OF assms(2)]
  have c: "canonical (Normalize a)" "val (Normalize a) = val a mod P"
    "canonical (Normalize b)" "val (Normalize b) = val b mod P" by simp_all
  have "(n0 (Normalize a) = n0 (Normalize b) \<and> n1 (Normalize a) = n1 (Normalize b)
          \<and> n2 (Normalize a) = n2 (Normalize b) \<and> n3 (Normalize a) = n3 (Normalize b)
          \<and> n4 (Normalize a) = n4 (Normalize b)) \<longleftrightarrow> Normalize a = Normalize b"
    by (cases "Normalize a"; cases "Normalize b") simp
  also have "\<dots> \<longleftrightarrow> val (Normalize a) = val (Normalize b)"
    using limbs52_unique [OF canonical_limbs52 [OF c(1)] canonical_limbs52 [OF c(3)]] by auto
  finally show ?thesis by (simp add: equals_def Let_def c)
qed

lemma IsZero_carry_free:
  assumes "carry_free a"
  shows "IsZero a = (val a mod P = 0, Normalize a)"
proof -
  from Normalize_carry_free [OF assms]
  have c: "canonical (Normalize a)" "val (Normalize a) = val a mod P" by simp_all
  have z: "limbs52 (FieldElem_int 0)" "val (FieldElem_int 0) = 0"
    by (simp_all add: limbs52_def FieldElem_int_def val_def)
  have "(n0 (Normalize a) = 0 \<and> n1 (Normalize a) = 0 \<and> n2 (Normalize a) = 0
          \<and> n3 (Normalize a) = 0 \<and> n4 (Normalize a) = 0) \<longleftrightarrow> Normalize a = FieldElem_int 0"
    by (cases "Normalize a") (simp add: FieldElem_int_def)
  also have "\<dots> \<longleftrightarrow> val (Normalize a) = 0"
    using limbs52_unique [OF canonical_limbs52 [OF c(1)] z(1)] z(2) by auto
  finally show ?thesis by (simp add: IsZero_def Let_def c)
qed

section \<open>The group formulas\<close>

lemma opd_self: "operand a \<Longrightarrow> opd (val a) a"
  by (simp add: opd_def)

lemma rep_opd: "rep k E a \<Longrightarrow> k \<le> 8 \<Longrightarrow> opd E a"
  by (auto simp: rep_def opd_def intro: lim_operand)

lemma opd_mult:
  assumes "opd Ea a" "opd Eb b"
  shows "\<exists>r. SetMult a b = Some r \<and> mult_out r \<and> rep 1 (Ea * Eb) r"
proof -
  from assms have o: "operand a" "operand b" by (simp_all add: opd_def)
  from SetMult_ok [OF o] obtain r where r: "SetMult a b = Some r" "mult_out r"
    "val r mod P = (val a * val b) mod P" by blast
  have "(val a * val b) mod P = (Ea * Eb) mod P"
    using assms by (intro mod_mult_cong) (simp_all add: opd_def)
  with r show ?thesis by (auto simp: rep_def mult_out_lim)
qed

lemma opd_square:
  assumes "opd Ea a"
  shows "\<exists>r. SetSquare a = Some r \<and> mult_out r \<and> rep 1 (Ea * Ea) r"
proof -
  from assms have o: "operand a" by (simp_all add: opd_def)
  from SetSquare_ok [OF o] obtain r where r: "SetSquare a = Some r" "mult_out r"
    "val r mod P = (val a * val a) mod P" by blast
  have "(val a * val a) mod P = (Ea * Ea) mod P"
    using assms by (intro mod_mult_cong) (simp_all add: opd_def)
  with r show ?thesis by (auto simp: rep_def mult_out_lim)
qed

lemma rep_scale:
  assumes "rep k E a" "0 \<le> v" "0 \<le> k" "k * v \<le> 16"
  shows "rep (k * v) (v * E) (scale a v)"
proof -
  from assms(1) have l: "lim k a" and c: "val a mod P = E mod P" by (simp_all add: rep_def)
  from lim_scale [OF l assms(2,3,4)]
  have s: "lim (k * v) (scale a v)" "val (scale a v) = v * val a" by simp_all
  have "(v * val a) mod P = (v * E) mod P" using c by (intro mod_mult_cong) simp_all
  with s show ?thesis by (simp add: rep_def)
qed

lemma rep_neg:
  assumes "rep m E a" "0 \<le> m" "m \<le> 8"
  shows "rep (m + 1) (- E) (SetNeg a m)"
proof -
  from assms(1) have l: "lim m a" and c: "val a mod P = E mod P" by (simp_all add: rep_def)
  from lim_SetNeg [OF l assms(2,3)]
  have s: "lim (m + 1) (SetNeg a m)" "val (SetNeg a m) = (m + 1) * P - val a" by simp_all
  have "((m + 1) * P - val a) mod P = (0 - val a) mod P"
    by (intro mod_diff_cong) simp_all
  also have "\<dots> = (0 - E) mod P" using c by (intro mod_diff_cong) simp_all
  finally show ?thesis using s by (simp add: rep_def)
qed

lemma rep_add:
  assumes "rep j Ea a" "rep k Eb b" "j + k \<le> 16"
  shows "rep (j + k) (Ea + Eb) (add a b)"
proof -
  from assms(1,2) have l: "lim j a" "lim k b" and c: "val a mod P = Ea mod P"
    "val b mod P = Eb mod P" by (simp_all add: rep_def)
  from lim_add [OF l assms(3)]
  have s: "lim (j + k) (add a b)" "val (add a b) = val a + val b" by simp_all
  have "(val a + val b) mod P = (Ea + Eb) mod P" using c by (intro mod_add_cong)
  with s show ?thesis by (simp add: rep_def)
qed

lemma rep_eq: "rep k E a \<Longrightarrow> E = E' \<Longrightarrow> k = k' \<Longrightarrow> rep k' E' a"
  by simp

text \<open>The doubling formulas, as polynomials in the coordinates of the argument.\<close>

lemma SetDouble_formula:
  assumes ni: "\<not> fInfinity p" and nz: "\<not> fst (IsZero (py this))"
    and o: "operand (px p)" "operand (py p)" "operand (pz p)"
  shows "\<exists>r. SetDouble this p = Some r \<and> fInfinity r = fInfinity this
     \<and> rep 6 (dbl_x (val (px p)) (val (py p))) (px r)
     \<and> rep 4 (dbl_y (val (px p)) (val (py p))) (py r)
     \<and> rep 2 (dbl_z (val (py p)) (val (pz p))) (pz r)"
proof -
  define X Y Z where XYZ: "X = val (px p)" "Y = val (py p)" "Z = val (pz p)"
  have ox: "opd X (px p)" and oy: "opd Y (py p)" and oz: "opd Z (pz p)"
    using o by (simp_all add: XYZ opd_self)
  from opd_mult [OF oy oz] obtain z1 where z1: "SetMult (py p) (pz p) = Some z1"
    "rep 1 (Y * Z) z1" by blast
  have z: "rep 2 (2 * (Y * Z)) (scale z1 2)"
    using rep_scale [OF z1(2), of 2] by simp
  from opd_square [OF ox] obtain t1a where t1a: "SetSquare (px p) = Some t1a"
    "rep 1 (X * X) t1a" by blast
  have t1: "rep 3 (3 * (X * X)) (scale t1a 3)"
    using rep_scale [OF t1a(2), of 3] by simp
  from opd_square [OF rep_opd [OF t1]] obtain t2 where t2: "SetSquare (scale t1a 3) = Some t2"
    "rep 1 (3 * (X * X) * (3 * (X * X))) t2" by auto
  from opd_square [OF oy] obtain t3a where t3a: "SetSquare (py p) = Some t3a"
    "rep 1 (Y * Y) t3a" by blast
  have t3b: "rep 2 (2 * (Y * Y)) (scale t3a 2)"
    using rep_scale [OF t3a(2), of 2] by simp
  from opd_square [OF rep_opd [OF t3b]] obtain t4a where t4a: "SetSquare (scale t3a 2) = Some t4a"
    "rep 1 (2 * (Y * Y) * (2 * (Y * Y))) t4a" by auto
  have t4: "rep 2 (2 * (2 * (Y * Y) * (2 * (Y * Y)))) (scale t4a 2)"
    using rep_scale [OF t4a(2), of 2] by simp
  from opd_mult [OF ox rep_opd [OF t3b]] obtain t3c where
    t3c: "SetMult (px p) (scale t3a 2) = Some t3c" "rep 1 (X * (2 * (Y * Y))) t3c" by auto
  have x1: "rep 4 (4 * (X * (2 * (Y * Y)))) (scale t3c 4)"
    using rep_scale [OF t3c(2), of 4] by simp
  have x2: "rep 5 (- (4 * (X * (2 * (Y * Y))))) (SetNeg (scale t3c 4) 4)"
    using rep_neg [OF x1] by simp
  have x: "rep 6 (- (4 * (X * (2 * (Y * Y)))) + 3 * (X * X) * (3 * (X * X)))
             (add (SetNeg (scale t3c 4) 4) t2)"
    using rep_add [OF x2 t2(2)] by simp
  have t2n: "rep 2 (- (3 * (X * X) * (3 * (X * X)))) (SetNeg t2 1)"
    using rep_neg [OF t2(2)] by simp
  have t3d: "rep 6 (6 * (X * (2 * (Y * Y)))) (scale t3c 6)"
    using rep_scale [OF t3c(2), of 6] by simp
  have t3e: "rep 8 (6 * (X * (2 * (Y * Y))) + - (3 * (X * X) * (3 * (X * X))))
               (add (scale t3c 6) (SetNeg t2 1))"
    using rep_add [OF t3d t2n] by simp
  from opd_mult [OF rep_opd [OF t1] rep_opd [OF t3e]] obtain ya where
    ya: "SetMult (scale t1a 3) (add (scale t3c 6) (SetNeg t2 1)) = Some ya"
      "rep 1 (3 * (X * X) * (6 * (X * (2 * (Y * Y))) + - (3 * (X * X) * (3 * (X * X))))) ya"
    by auto
  have t2m: "rep 3 (- (2 * (2 * (Y * Y) * (2 * (Y * Y))))) (SetNeg (scale t4a 2) 2)"
    using rep_neg [OF t4] by simp
  have y: "rep 4 (3 * (X * X) * (6 * (X * (2 * (Y * Y))) + - (3 * (X * X) * (3 * (X * X))))
                  + - (2 * (2 * (Y * Y) * (2 * (Y * Y)))))
             (add ya (SetNeg (scale t4a 2) 2))"
    using rep_add [OF ya(2) t2m] by simp
  define r where "r = this\<lparr>px := add (SetNeg (scale t3c 4) 4) t2,
                            py := add ya (SetNeg (scale t4a 2) 2), pz := scale z1 2\<rparr>"
  have run: "SetDouble this p = Some r"
    using ni nz
    by (simp add: SetDouble_def r_def Let_def split_beta z1(1) t1a(1) t2(1) t3a(1) t4a(1)
          t3c(1) ya(1))
  have ex: "- (4 * (X * (2 * (Y * Y)))) + 3 * (X * X) * (3 * (X * X)) = dbl_x X Y"
    by (simp add: dbl_x_def power2_eq_square power4_eq_xxxx)
  have ey: "3 * (X * X) * (6 * (X * (2 * (Y * Y))) + - (3 * (X * X) * (3 * (X * X))))
                  + - (2 * (2 * (Y * Y) * (2 * (Y * Y)))) = dbl_y X Y"
    by (simp add: dbl_y_def power2_eq_square power4_eq_xxxx power3_eq_cube algebra_simps
          numeral_eq_Suc)
  have ez: "2 * (Y * Z) = dbl_z Y Z" by (simp add: dbl_z_def)
  have "rep 6 (dbl_x X Y) (px r)" using x unfolding ex by (simp add: r_def)
  moreover have "rep 4 (dbl_y X Y) (py r)" using y unfolding ey by (simp add: r_def)
  moreover have "rep 2 (dbl_z Y Z) (pz r)" using z unfolding ez by (simp add: r_def)
  moreover have "fInfinity r = fInfinity this" by (simp add: r_def)
  ultimately show ?thesis using run unfolding XYZ by blast
qed

lemma carry1_limbs52: "limbs52 (fst (carry1 a))"
  by (simp add: carry1_def Let_def limbs52_def w_and52 w_and48)

lemma carry2_limbs52: "limbs52 (carry2 t c)"
  by (simp add: carry2_def Let_def limbs52_def w_and52 w_and48)

lemma final_sub_limbs52: "limbs52 a \<Longrightarrow> limbs52 (final_sub a)"
  using final_sub_ok [of a] by (simp add: canonical_limbs52)

lemma Normalize_limbs52: "limbs52 (Normalize a)"
proof -
  have "limbs52 (if exceeds a
       then (case carry1 a of (t, c) \<Rightarrow> if c \<noteq> 0 then carry2 t c else t) else a)"
  proof (cases "exceeds a")
    case True
    then show ?thesis
      using carry1_limbs52 [of a] carry2_limbs52 by (cases "carry1 a") simp
  next
    case False
    then show ?thesis
      by (simp add: exceeds_def limbs52_def word_less_def not_less word_le_def)
  qed
  then show ?thesis unfolding Normalize_stages by (rule final_sub_limbs52)
qed

text \<open>The addition formulas, as polynomials in \<open>U\<^sub>1\<close>, \<open>U\<^sub>2\<close>, \<open>S\<^sub>1\<close>, \<open>S\<^sub>2\<close>.\<close>

lemma add_xy_tail:
  assumes u1: "rep 1 U1 u1" and u2: "rep 1 U2 u2" and s1: "rep 1 S1 s1" and s2: "rep 1 S2 s2"
  shows "\<exists>r2 h2 h3 t y h3'.
      SetSquare (add (SetNeg s1 1) s2) = Some r2
    \<and> SetSquare (add (SetNeg u1 1) u2) = Some h2
    \<and> SetMult (add (SetNeg u1 1) u2) h2 = Some h3
    \<and> SetMult u1 h2 = Some t
    \<and> SetMult (add (SetNeg (add (SetNeg (add (scale t 2) h3) 3) r2) 5) t)
         (add (SetNeg s1 1) s2) = Some y
    \<and> SetMult h3 s1 = Some h3'
    \<and> rep 3 (U2 - U1) (add (SetNeg u1 1) u2)
    \<and> rep 5 (add_x U1 U2 S1 S2) (add (SetNeg (add (scale t 2) h3) 3) r2)
    \<and> rep 3 (add_y U1 U2 S1 S2) (add y (SetNeg h3' 1))"
proof -
  define H R where HR: "H = - U1 + U2" "R = - S1 + S2"
  have h: "rep 3 H (add (SetNeg u1 1) u2)"
    using rep_add [OF rep_neg [OF u1] u2] by (simp add: HR)
  have r: "rep 3 R (add (SetNeg s1 1) s2)"
    using rep_add [OF rep_neg [OF s1] s2] by (simp add: HR)
  from opd_square [OF rep_opd [OF r]] obtain r2 where
    r2: "SetSquare (add (SetNeg s1 1) s2) = Some r2" "rep 1 (R * R) r2" by auto
  from opd_square [OF rep_opd [OF h]] obtain h2 where
    h2: "SetSquare (add (SetNeg u1 1) u2) = Some h2" "rep 1 (H * H) h2" by auto
  from opd_mult [OF rep_opd [OF h] rep_opd [OF h2(2)]] obtain h3 where
    h3: "SetMult (add (SetNeg u1 1) u2) h2 = Some h3" "rep 1 (H * (H * H)) h3" by auto
  from opd_mult [OF rep_opd [OF u1] rep_opd [OF h2(2)]] obtain t where
    t: "SetMult u1 h2 = Some t" "rep 1 (U1 * (H * H)) t" by auto
  have x1: "rep 3 (2 * (U1 * (H * H)) + H * (H * H)) (add (scale t 2) h3)"
    using rep_add [OF rep_scale [OF t(2), of 2] h3(2)] by simp
  have x: "rep 5 (- (2 * (U1 * (H * H)) + H * (H * H)) + R * R)
             (add (SetNeg (add (scale t 2) h3) 3) r2)"
    using rep_add [OF rep_neg [OF x1] r2(2)] by simp
  define Xe where "Xe = - (2 * (U1 * (H * H)) + H * (H * H)) + R * R"
  note x' = x [folded Xe_def]
  have y1: "rep 7 (- Xe + U1 * (H * H)) (add (SetNeg (add (SetNeg (add (scale t 2) h3) 3) r2) 5) t)"
    using rep_add [OF rep_neg [OF x'] t(2)] by simp
  from opd_mult [OF rep_opd [OF y1] rep_opd [OF r]] obtain y where
    y: "SetMult (add (SetNeg (add (SetNeg (add (scale t 2) h3) 3) r2) 5) t)
          (add (SetNeg s1 1) s2) = Some y" "rep 1 ((- Xe + U1 * (H * H)) * R) y" by auto
  from opd_mult [OF rep_opd [OF h3(2)] rep_opd [OF s1]] obtain h3' where
    h3': "SetMult h3 s1 = Some h3'" "rep 1 (H * (H * H) * S1) h3'" by auto
  have y2: "rep 3 ((- Xe + U1 * (H * H)) * R + - (H * (H * H) * S1)) (add y (SetNeg h3' 1))"
    using rep_add [OF y(2) rep_neg [OF h3'(2)]] by simp
  have eh: "H = U2 - U1" by (simp add: HR)
  have ex: "Xe = add_x U1 U2 S1 S2"
    by (simp add: Xe_def add_x_def HR power2_eq_square power3_eq_cube algebra_simps)
  have ey: "(- Xe + U1 * (H * H)) * R + - (H * (H * H) * S1) = add_y U1 U2 S1 S2"
    unfolding ex by (simp add: add_y_def HR power2_eq_square power3_eq_cube algebra_simps)
  have "rep 3 (U2 - U1) (add (SetNeg u1 1) u2)" using h unfolding eh .
  moreover have "rep 5 (add_x U1 U2 S1 S2) (add (SetNeg (add (scale t 2) h3) 3) r2)"
    using x' unfolding ex .
  moreover have "rep 3 (add_y U1 U2 S1 S2) (add y (SetNeg h3' 1))"
    using y2 unfolding ey .
  ultimately show ?thesis using r2(1) h2(1) h3(1) t(1) y(1) h3'(1) by blast
qed

lemma rep_Normalize:
  assumes "mult_out u" "val u mod P = U mod P"
  shows "rep 1 U (Normalize u)"
proof -
  from Normalize_carry_free [OF mult_out_carry_free [OF assms(1)]]
  have "val (Normalize u) = val u mod P" by simp
  then have "val (Normalize u) mod P = U mod P" using assms(2) by simp
  then show ?thesis using Normalize_limbs52 [of u] by (simp add: rep_def limbs52_lim)
qed

lemma rep_Normalize_twice: "rep 1 (val (Normalize a)) (Normalize (Normalize a))"
proof -
  from Normalize_carry_free [OF limbs52_carry_free [OF Normalize_limbs52 [of a]]]
  have "val (Normalize (Normalize a)) = val (Normalize a) mod P" by simp
  then have "val (Normalize (Normalize a)) mod P = val (Normalize a) mod P" by simp
  then show ?thesis
    using Normalize_limbs52 [of "Normalize a"] by (simp add: rep_def limbs52_lim)
qed

lemma SetAdd_cases:
  assumes o: "operand (px p)" "operand (py p)" "operand (pz p)"
      "operand (px q)" "operand (py q)" "operand (pz q)"
  defines "U1 \<equiv> val (px p) * (val (pz q) * val (pz q))"
    and "U2 \<equiv> val (px q) * (val (pz p) * val (pz p))"
    and "S1 \<equiv> val (py p) * (val (pz q) * val (pz q)) * val (pz q)"
    and "S2 \<equiv> val (py q) * (val (pz p) * val (pz p)) * val (pz p)"
  shows "(fInfinity p \<longrightarrow> SetAdd this p q = Some q)
    \<and> (\<not> fInfinity p \<and> fInfinity q \<longrightarrow> SetAdd this p q = Some p)
    \<and> (\<not> fInfinity p \<and> \<not> fInfinity q \<and> U1 mod P = U2 mod P \<and> S1 mod P = S2 mod P
         \<longrightarrow> SetAdd this p q = SetDouble (this\<lparr>fInfinity := False\<rparr>) p)
    \<and> (\<not> fInfinity p \<and> \<not> fInfinity q \<and> U1 mod P = U2 mod P \<and> S1 mod P \<noteq> S2 mod P
         \<longrightarrow> SetAdd this p q = Some (this\<lparr>fInfinity := True\<rparr>))
    \<and> (\<not> fInfinity p \<and> \<not> fInfinity q \<and> U1 mod P \<noteq> U2 mod P
         \<longrightarrow> (\<exists>r. SetAdd this p q = Some r \<and> \<not> fInfinity r
               \<and> rep 5 (add_x U1 U2 S1 S2) (px r)
               \<and> rep 3 (add_y U1 U2 S1 S2) (py r)
               \<and> rep 1 (val (pz p) * val (pz q) * (U2 - U1)) (pz r)))"
proof -
  note od = o [THEN opd_self]
  from opd_square [OF od(6)] obtain z22 where
    z22: "SetSquare (pz q) = Some z22" "rep 1 (val (pz q) * val (pz q)) z22" by blast
  from opd_square [OF od(3)] obtain z12 where
    z12: "SetSquare (pz p) = Some z12" "rep 1 (val (pz p) * val (pz p)) z12" by blast
  from opd_mult [OF od(1) rep_opd [OF z22(2)]] obtain u1 where
    u1: "SetMult (px p) z22 = Some u1" "mult_out u1" "rep 1 U1 u1" by (auto simp: U1_def)
  from opd_mult [OF od(4) rep_opd [OF z12(2)]] obtain u2 where
    u2: "SetMult (px q) z12 = Some u2" "mult_out u2" "rep 1 U2 u2" by (auto simp: U2_def)
  from opd_mult [OF od(2) rep_opd [OF z22(2)]] obtain s1a where
    s1a: "SetMult (py p) z22 = Some s1a" "rep 1 (val (py p) * (val (pz q) * val (pz q))) s1a"
    by auto
  from opd_mult [OF rep_opd [OF s1a(2)] od(6)] obtain s1 where
    s1: "SetMult s1a (pz q) = Some s1" "mult_out s1" "rep 1 S1 s1" by (auto simp: S1_def)
  from opd_mult [OF od(5) rep_opd [OF z12(2)]] obtain s2a where
    s2a: "SetMult (py q) z12 = Some s2a" "rep 1 (val (py q) * (val (pz p) * val (pz p))) s2a"
    by auto
  from opd_mult [OF rep_opd [OF s2a(2)] od(3)] obtain s2 where
    s2: "SetMult s2a (pz p) = Some s2" "mult_out s2" "rep 1 S2 s2" by (auto simp: S2_def)
  have vu: "val u1 mod P = U1 mod P" "val u2 mod P = U2 mod P" "val s1 mod P = S1 mod P"
    "val s2 mod P = S2 mod P" using u1(3) u2(3) s1(3) s2(3) by (simp_all add: rep_def)
  have equ: "equals u1 u2 = (U1 mod P = U2 mod P, Normalize u1, Normalize u2)"
    using equals_carry_free [OF mult_out_carry_free [OF u1(2)] mult_out_carry_free [OF u2(2)]]
    by (simp add: vu)
  have eqs: "equals s1 s2 = (S1 mod P = S2 mod P, Normalize s1, Normalize s2)"
    using equals_carry_free [OF mult_out_carry_free [OF s1(2)] mult_out_carry_free [OF s2(2)]]
    by (simp add: vu)
  note pre = z22(1) z12(1) u1(1) u2(1) s1a(1) s1(1) s2a(1) s2(1)
  have c1: "fInfinity p \<longrightarrow> SetAdd this p q = Some q" by (simp add: SetAdd_def)
  have c2: "\<not> fInfinity p \<and> fInfinity q \<longrightarrow> SetAdd this p q = Some p" by (simp add: SetAdd_def)
  have c3: "\<not> fInfinity p \<and> \<not> fInfinity q \<and> U1 mod P = U2 mod P \<and> S1 mod P = S2 mod P
         \<longrightarrow> SetAdd this p q = SetDouble (this\<lparr>fInfinity := False\<rparr>) p"
    by (simp add: SetAdd_def Let_def pre equ eqs)
  have c4: "\<not> fInfinity p \<and> \<not> fInfinity q \<and> U1 mod P = U2 mod P \<and> S1 mod P \<noteq> S2 mod P
         \<longrightarrow> SetAdd this p q = Some (this\<lparr>fInfinity := True\<rparr>)"
    by (simp add: SetAdd_def Let_def pre equ eqs)
  have c5: "\<not> fInfinity p \<and> \<not> fInfinity q \<and> U1 mod P \<noteq> U2 mod P
         \<longrightarrow> (\<exists>r. SetAdd this p q = Some r \<and> \<not> fInfinity r
               \<and> rep 5 (add_x U1 U2 S1 S2) (px r)
               \<and> rep 3 (add_y U1 U2 S1 S2) (py r)
               \<and> rep 1 (val (pz p) * val (pz q) * (U2 - U1)) (pz r))"
  proof (intro impI, elim conjE)
    assume ninf: "\<not> fInfinity p" "\<not> fInfinity q" and ne: "U1 mod P \<noteq> U2 mod P"
    have n1: "rep 1 U1 (Normalize u1)" using u1(2) vu(1) by (rule rep_Normalize)
    have n2: "rep 1 U2 (Normalize u2)" using u2(2) vu(2) by (rule rep_Normalize)
    from add_xy_tail [OF n1 n2 s1(3) s2(3)] obtain r2 h2 h3 t y h3' where
      tl: "SetSquare (add (SetNeg s1 1) s2) = Some r2"
        "SetSquare (add (SetNeg (Normalize u1) 1) (Normalize u2)) = Some h2"
        "SetMult (add (SetNeg (Normalize u1) 1) (Normalize u2)) h2 = Some h3"
        "SetMult (Normalize u1) h2 = Some t"
        "SetMult (add (SetNeg (add (SetNeg (add (scale t 2) h3) 3) r2) 5) t)
           (add (SetNeg s1 1) s2) = Some y"
        "SetMult h3 s1 = Some h3'"
      and rp: "rep 3 (U2 - U1) (add (SetNeg (Normalize u1) 1) (Normalize u2))"
        "rep 5 (add_x U1 U2 S1 S2) (add (SetNeg (add (scale t 2) h3) 3) r2)"
        "rep 3 (add_y U1 U2 S1 S2) (add y (SetNeg h3' 1))"
      by blast
    from opd_mult [OF od(3) od(6)] obtain za where
      za: "SetMult (pz p) (pz q) = Some za" "rep 1 (val (pz p) * val (pz q)) za" by blast
    from opd_mult [OF rep_opd [OF za(2)] rep_opd [OF rp(1)]] obtain z where
      z: "SetMult za (add (SetNeg (Normalize u1) 1) (Normalize u2)) = Some z"
        "rep 1 (val (pz p) * val (pz q) * (U2 - U1)) z" by auto
    define r where "r = this\<lparr>fInfinity := False,
        px := add (SetNeg (add (scale t 2) h3) 3) r2, py := add y (SetNeg h3' 1), pz := z\<rparr>"
    have "SetAdd this p q = Some r"
      using ninf ne by (simp add: SetAdd_def Let_def pre equ tl za(1) z(1) r_def)
    moreover have "\<not> fInfinity r" "px r = add (SetNeg (add (scale t 2) h3) 3) r2"
      "py r = add y (SetNeg h3' 1)" "pz r = z" by (simp_all add: r_def)
    ultimately show "\<exists>r. SetAdd this p q = Some r \<and> \<not> fInfinity r
               \<and> rep 5 (add_x U1 U2 S1 S2) (px r)
               \<and> rep 3 (add_y U1 U2 S1 S2) (py r)
               \<and> rep 1 (val (pz p) * val (pz q) * (U2 - U1)) (pz r)"
      using rp(2,3) z(2) by auto
  qed
  from c1 c2 c3 c4 c5 show ?thesis by blast
qed

lemma SetAdd_affine_cases:
  assumes o: "operand (pz p)" "operand (px q)" "operand (py q)"
  defines "U1 \<equiv> val (Normalize (px p))"
    and "U2 \<equiv> val (px q) * (val (pz p) * val (pz p))"
    and "S1 \<equiv> val (Normalize (py p))"
    and "S2 \<equiv> val (py q) * (val (pz p) * val (pz p)) * val (pz p)"
  shows "(fInfinity p \<longrightarrow> SetAdd_affine this p q
            = Some (this\<lparr>px := px q, py := py q, fInfinity := fInfinity q,
                          pz := FieldElem_int 1\<rparr>))
    \<and> (\<not> fInfinity p \<and> fInfinity q \<longrightarrow> SetAdd_affine this p q = Some p)
    \<and> (\<not> fInfinity p \<and> \<not> fInfinity q \<and> U1 mod P = U2 mod P \<and> S1 mod P = S2 mod P
         \<longrightarrow> SetAdd_affine this p q = SetDouble (this\<lparr>fInfinity := False\<rparr>) p)
    \<and> (\<not> fInfinity p \<and> \<not> fInfinity q \<and> U1 mod P = U2 mod P \<and> S1 mod P \<noteq> S2 mod P
         \<longrightarrow> SetAdd_affine this p q = Some (this\<lparr>fInfinity := True\<rparr>))
    \<and> (\<not> fInfinity p \<and> \<not> fInfinity q \<and> U1 mod P \<noteq> U2 mod P
         \<longrightarrow> (\<exists>r. SetAdd_affine this p q = Some r \<and> \<not> fInfinity r
               \<and> rep 5 (add_x U1 U2 S1 S2) (px r)
               \<and> rep 3 (add_y U1 U2 S1 S2) (py r)
               \<and> rep 1 (val (pz p) * (U2 - U1)) (pz r)))"
proof -
  note od = o [THEN opd_self]
  from opd_square [OF od(1)] obtain z12 where
    z12: "SetSquare (pz p) = Some z12" "rep 1 (val (pz p) * val (pz p)) z12" by blast
  from opd_mult [OF od(2) rep_opd [OF z12(2)]] obtain u2 where
    u2: "SetMult (px q) z12 = Some u2" "mult_out u2" "rep 1 U2 u2" by (auto simp: U2_def)
  from opd_mult [OF od(3) rep_opd [OF z12(2)]] obtain s2a where
    s2a: "SetMult (py q) z12 = Some s2a" "rep 1 (val (py q) * (val (pz p) * val (pz p))) s2a"
    by auto
  from opd_mult [OF rep_opd [OF s2a(2)] od(1)] obtain s2 where
    s2: "SetMult s2a (pz p) = Some s2" "mult_out s2" "rep 1 S2 s2" by (auto simp: S2_def)
  define u1 s1 where us: "u1 = Normalize (px p)" "s1 = Normalize (py p)"
  have cf: "carry_free u1" "carry_free s1"
    unfolding us by (rule limbs52_carry_free [OF Normalize_limbs52])+
  have vu: "val u2 mod P = U2 mod P" "val s2 mod P = S2 mod P"
    using u2(3) s2(3) by (simp_all add: rep_def)
  have equ: "equals u1 u2 = (U1 mod P = U2 mod P, Normalize u1, Normalize u2)"
    using equals_carry_free [OF cf(1) mult_out_carry_free [OF u2(2)]]
    by (simp add: vu U1_def us)
  have eqs: "equals s1 s2 = (S1 mod P = S2 mod P, Normalize s1, Normalize s2)"
    using equals_carry_free [OF cf(2) mult_out_carry_free [OF s2(2)]]
    by (simp add: vu S1_def us)
  note pre = z12(1) u2(1) s2a(1) s2(1)
  have c1: "fInfinity p \<longrightarrow> SetAdd_affine this p q
            = Some (this\<lparr>px := px q, py := py q, fInfinity := fInfinity q,
                          pz := FieldElem_int 1\<rparr>)"
    by (simp add: SetAdd_affine_def)
  have c2: "\<not> fInfinity p \<and> fInfinity q \<longrightarrow> SetAdd_affine this p q = Some p"
    by (simp add: SetAdd_affine_def)
  have c3: "\<not> fInfinity p \<and> \<not> fInfinity q \<and> U1 mod P = U2 mod P \<and> S1 mod P = S2 mod P
         \<longrightarrow> SetAdd_affine this p q = SetDouble (this\<lparr>fInfinity := False\<rparr>) p"
    by (simp add: SetAdd_affine_def Let_def pre equ eqs us [symmetric])
  have c4: "\<not> fInfinity p \<and> \<not> fInfinity q \<and> U1 mod P = U2 mod P \<and> S1 mod P \<noteq> S2 mod P
         \<longrightarrow> SetAdd_affine this p q = Some (this\<lparr>fInfinity := True\<rparr>)"
    by (simp add: SetAdd_affine_def Let_def pre equ eqs us [symmetric])
  have c5: "\<not> fInfinity p \<and> \<not> fInfinity q \<and> U1 mod P \<noteq> U2 mod P
         \<longrightarrow> (\<exists>r. SetAdd_affine this p q = Some r \<and> \<not> fInfinity r
               \<and> rep 5 (add_x U1 U2 S1 S2) (px r)
               \<and> rep 3 (add_y U1 U2 S1 S2) (py r)
               \<and> rep 1 (val (pz p) * (U2 - U1)) (pz r))"
  proof (intro impI, elim conjE)
    assume ninf: "\<not> fInfinity p" "\<not> fInfinity q" and ne: "U1 mod P \<noteq> U2 mod P"
    have n1: "rep 1 U1 (Normalize u1)" unfolding us U1_def by (rule rep_Normalize_twice)
    have n2: "rep 1 U2 (Normalize u2)" using u2(2) vu(1) by (rule rep_Normalize)
    have r1: "rep 1 S1 s1"
      unfolding us S1_def using Normalize_limbs52 [of "py p"] by (simp add: rep_def limbs52_lim)
    from add_xy_tail [OF n1 n2 r1 s2(3)] obtain r2 h2 h3 t y h3' where
      tl: "SetSquare (add (SetNeg s1 1) s2) = Some r2"
        "SetSquare (add (SetNeg (Normalize u1) 1) (Normalize u2)) = Some h2"
        "SetMult (add (SetNeg (Normalize u1) 1) (Normalize u2)) h2 = Some h3"
        "SetMult (Normalize u1) h2 = Some t"
        "SetMult (add (SetNeg (add (SetNeg (add (scale t 2) h3) 3) r2) 5) t)
           (add (SetNeg s1 1) s2) = Some y"
        "SetMult h3 s1 = Some h3'"
      and rp: "rep 3 (U2 - U1) (add (SetNeg (Normalize u1) 1) (Normalize u2))"
        "rep 5 (add_x U1 U2 S1 S2) (add (SetNeg (add (scale t 2) h3) 3) r2)"
        "rep 3 (add_y U1 U2 S1 S2) (add y (SetNeg h3' 1))"
      by blast
    from opd_mult [OF od(1) rep_opd [OF rp(1)]] obtain z where
      z: "SetMult (pz p) (add (SetNeg (Normalize u1) 1) (Normalize u2)) = Some z"
        "rep 1 (val (pz p) * (U2 - U1)) z" by auto
    define r where "r = this\<lparr>fInfinity := False,
        px := add (SetNeg (add (scale t 2) h3) 3) r2, py := add y (SetNeg h3' 1), pz := z\<rparr>"
    have "SetAdd_affine this p q = Some r"
      using ninf ne
      by (simp add: SetAdd_affine_def Let_def pre equ tl z(1) r_def us [symmetric])
    moreover have "\<not> fInfinity r" "px r = add (SetNeg (add (scale t 2) h3) 3) r2"
      "py r = add y (SetNeg h3' 1)" "pz r = z" by (simp_all add: r_def)
    ultimately show "\<exists>r. SetAdd_affine this p q = Some r \<and> \<not> fInfinity r
               \<and> rep 5 (add_x U1 U2 S1 S2) (px r)
               \<and> rep 3 (add_y U1 U2 S1 S2) (py r)
               \<and> rep 1 (val (pz p) * (U2 - U1)) (pz r)"
      using rp(2,3) z(2) by auto
  qed
  from c1 c2 c3 c4 c5 show ?thesis by blast
qed

text \<open>The call \<open>r.SetDouble(r)\<close> is the call on distinct objects with \<open>p.y\<close> normalised
  before.\<close>

lemma SetDouble_self_eq: "SetDouble_self t = SetDouble t (t\<lparr>py := snd (IsZero (py t))\<rparr>)"
  by (simp add: SetDouble_self_def SetDouble_def split: prod.splits)

section \<open>The curve equation under doubling and addition\<close>

lemma IsValid_curve_sides:
  "IsValid t = (if fInfinity t then Some False
                else do { (l, r) \<leftarrow> curve_sides t; Some (fst (equals l r)) })"
  by (simp add: IsValid_def curve_sides_def Let_def)

lemma dbl_identity:
  "(dbl_y X Y) ^ 2 - (dbl_x X Y) ^ 3 - 7 * (dbl_z Y Z) ^ 6
     = 64 * Y ^ 6 * (Y ^ 2 - X ^ 3 - 7 * Z ^ 6)"
  unfolding dbl_x_def dbl_y_def dbl_z_def by algebra

lemma add_identity:
  "(add_y U1 U2 S1 S2) ^ 2 - (add_x U1 U2 S1 S2) ^ 3 - 7 * (Zc * (U2 - U1)) ^ 6
     = (U2 - U1) ^ 6 * (S1 ^ 2 - U1 ^ 3 - 7 * Zc ^ 6)
       + (U2 - U1) ^ 3 * (add_x U1 U2 S1 S2 - U1 * (U2 - U1) ^ 2)
         * ((S2 ^ 2 - U2 ^ 3 - 7 * Zc ^ 6) - (S1 ^ 2 - U1 ^ 3 - 7 * Zc ^ 6))"
  unfolding add_x_def add_y_def by algebra

lemma on_curve_dvd:
  "on_curve t \<longleftrightarrow> P dvd val (py t) ^ 2 - val (px t) ^ 3 - 7 * val (pz t) ^ 6"
  by (simp add: on_curve_def mod_eq_dvd_iff algebra_simps)

lemma rep_on_curve:
  assumes x: "rep kx X (px r)" and y: "rep ky Y (py r)" and z: "rep kz Z (pz r)"
    and d: "P dvd Y ^ 2 - X ^ 3 - 7 * Z ^ 6"
  shows "on_curve r"
proof -
  from x y z have c: "val (px r) mod P = X mod P" "val (py r) mod P = Y mod P"
    "val (pz r) mod P = Z mod P" by (simp_all add: rep_def)
  have "val (py r) ^ 2 mod P = Y ^ 2 mod P" using c(2) by (metis power_mod)
  moreover have "val (px r) ^ 3 mod P = X ^ 3 mod P" using c(1) by (metis power_mod)
  moreover have "val (pz r) ^ 6 mod P = Z ^ 6 mod P" using c(3) by (metis power_mod)
  then have "7 * val (pz r) ^ 6 mod P = 7 * Z ^ 6 mod P" by (metis mod_mult_right_eq)
  moreover have "Y ^ 2 mod P = (X ^ 3 + 7 * Z ^ 6) mod P"
    using d by (simp add: mod_eq_dvd_iff algebra_simps)
  ultimately show ?thesis unfolding on_curve_def by (metis mod_add_cong)
qed

lemma curve_sides_ok:
  assumes o: "operand (px t)" "operand (py t)" "operand (pz t)"
  shows "\<exists>l r. curve_sides t = Some (l, r) \<and> mult_out l \<and> lim 8 r
     \<and> (on_curve t \<longleftrightarrow> val l mod P = val r mod P)"
proof -
  note od = o [THEN opd_self]
  from opd_square [OF od(2)] obtain y2 where
    y2: "SetSquare (py t) = Some y2" "mult_out y2" "rep 1 (val (py t) * val (py t)) y2" by blast
  from opd_square [OF od(1)] obtain x2 where
    x2: "SetSquare (px t) = Some x2" "rep 1 (val (px t) * val (px t)) x2" by blast
  from opd_mult [OF rep_opd [OF x2(2)] od(1)] obtain x3 where
    x3: "SetMult x2 (px t) = Some x3" "rep 1 (val (px t) * val (px t) * val (px t)) x3" by auto
  from opd_square [OF od(3)] obtain z2 where
    z2: "SetSquare (pz t) = Some z2" "rep 1 (val (pz t) * val (pz t)) z2" by blast
  from opd_square [OF rep_opd [OF z2(2)]] obtain z4 where
    z4: "SetSquare z2 = Some z4"
      "rep 1 (val (pz t) * val (pz t) * (val (pz t) * val (pz t))) z4" by auto
  from opd_mult [OF rep_opd [OF z4(2)] rep_opd [OF z2(2)]] obtain z6 where
    z6: "SetMult z4 z2 = Some z6"
      "rep 1 (val (pz t) * val (pz t) * (val (pz t) * val (pz t))
               * (val (pz t) * val (pz t))) z6" by auto
  have s: "rep (1 * 7) (7 * (val (pz t) * val (pz t) * (val (pz t) * val (pz t))
               * (val (pz t) * val (pz t)))) (scale z6 7)"
    by (rule rep_scale [OF z6(2)]) simp_all
  have r: "rep (1 + 1 * 7) (val (px t) * val (px t) * val (px t)
      + 7 * (val (pz t) * val (pz t) * (val (pz t) * val (pz t)) * (val (pz t) * val (pz t))))
      (add x3 (scale z6 7))"
    by (rule rep_add [OF x3(2) s]) simp
  have cs: "curve_sides t = Some (y2, add x3 (scale z6 7))"
    by (simp add: curve_sides_def y2(1) x2(1) x3(1) z2(1) z4(1) z6(1))
  have e1: "val y2 mod P = val (py t) ^ 2 mod P"
    using y2(3) by (simp add: rep_def power2_eq_square)
  have e2: "val (add x3 (scale z6 7)) mod P = (val (px t) ^ 3 + 7 * val (pz t) ^ 6) mod P"
    using r by (simp add: rep_def power3_eq_cube power_def algebra_simps)
  have "lim 8 (add x3 (scale z6 7))" using r by (simp add: rep_def)
  with cs y2(2) e1 e2 show ?thesis by (simp add: on_curve_def)
qed

lemma on_curve_iff:
  assumes "operand (px t)" "operand (py t)" "operand (pz t)" "curve_sides t = Some (l, r)"
  shows "on_curve t \<longleftrightarrow> val l mod P = val r mod P"
  using curve_sides_ok [OF assms(1-3)] assms(4) by auto

lemma SetDouble_on_curve:
  assumes o: "operand (px p)" "operand (py p)" "operand (pz p)" and c: "on_curve p"
  shows "\<exists>r. SetDouble this p = Some r \<and> (fInfinity r \<or> on_curve r)"
proof (cases "fInfinity p \<or> fst (IsZero (py this))")
  case True
  then show ?thesis by (auto simp add: SetDouble_def split: prod.splits)
next
  case False
  then have ni: "\<not> fInfinity p" and nz: "\<not> fst (IsZero (py this))" by simp_all
  from SetDouble_formula [OF ni nz o] obtain r where r: "SetDouble this p = Some r"
    "rep 6 (dbl_x (val (px p)) (val (py p))) (px r)"
    "rep 4 (dbl_y (val (px p)) (val (py p))) (py r)"
    "rep 2 (dbl_z (val (py p)) (val (pz p))) (pz r)" by blast
  from c have "P dvd val (py p) ^ 2 - val (px p) ^ 3 - 7 * val (pz p) ^ 6"
    by (simp add: on_curve_dvd)
  then have "P dvd 64 * val (py p) ^ 6 * (val (py p) ^ 2 - val (px p) ^ 3 - 7 * val (pz p) ^ 6)"
    by (rule dvd_mult)
  then have "P dvd (dbl_y (val (px p)) (val (py p))) ^ 2 - (dbl_x (val (px p)) (val (py p))) ^ 3
      - 7 * (dbl_z (val (py p)) (val (pz p))) ^ 6"
    by (simp only: dbl_identity)
  from rep_on_curve [OF r(2,3,4) this] r(1) show ?thesis by blast
qed

lemma SetAdd_on_curve:
  assumes o: "operand (px p)" "operand (py p)" "operand (pz p)"
      "operand (px q)" "operand (py q)" "operand (pz q)"
    and c: "on_curve p" "on_curve q"
  shows "\<exists>r. SetAdd this p q = Some r \<and> (fInfinity r \<or> on_curve r)"
proof -
  define U1 where "U1 = val (px p) * (val (pz q) * val (pz q))"
  define U2 where "U2 = val (px q) * (val (pz p) * val (pz p))"
  define S1 where "S1 = val (py p) * (val (pz q) * val (pz q)) * val (pz q)"
  define S2 where "S2 = val (py q) * (val (pz p) * val (pz p)) * val (pz p)"
  define Zc where "Zc = val (pz p) * val (pz q)"
  note cs = SetAdd_cases [OF o, of this, folded U1_def U2_def S1_def S2_def]
  consider "fInfinity p" | "\<not> fInfinity p" "fInfinity q"
    | "\<not> fInfinity p" "\<not> fInfinity q" "U1 mod P = U2 mod P" "S1 mod P = S2 mod P"
    | "\<not> fInfinity p" "\<not> fInfinity q" "U1 mod P = U2 mod P" "S1 mod P \<noteq> S2 mod P"
    | "\<not> fInfinity p" "\<not> fInfinity q" "U1 mod P \<noteq> U2 mod P" by blast
  then show ?thesis
  proof cases
    case 1
    with cs c(2) show ?thesis by simp
  next
    case 2
    with cs c(1) show ?thesis by simp
  next
    case 3
    with cs have "SetAdd this p q = SetDouble (this\<lparr>fInfinity := False\<rparr>) p" by simp
    with SetDouble_on_curve [OF o(1-3) c(1)] show ?thesis by simp
  next
    case 4
    with cs show ?thesis by simp
  next
    case 5
    with cs obtain r where r: "SetAdd this p q = Some r"
      "rep 5 (add_x U1 U2 S1 S2) (px r)" "rep 3 (add_y U1 U2 S1 S2) (py r)"
      "rep 1 (val (pz p) * val (pz q) * (U2 - U1)) (pz r)" by blast
    have e1: "S1 ^ 2 - U1 ^ 3 - 7 * Zc ^ 6
        = val (pz q) ^ 6 * (val (py p) ^ 2 - val (px p) ^ 3 - 7 * val (pz p) ^ 6)"
      unfolding S1_def U1_def Zc_def by algebra
    have e2: "S2 ^ 2 - U2 ^ 3 - 7 * Zc ^ 6
        = val (pz p) ^ 6 * (val (py q) ^ 2 - val (px q) ^ 3 - 7 * val (pz q) ^ 6)"
      unfolding S2_def U2_def Zc_def by algebra
    have d1: "P dvd S1 ^ 2 - U1 ^ 3 - 7 * Zc ^ 6"
      unfolding e1 using c(1) by (simp add: on_curve_dvd)
    have d2: "P dvd S2 ^ 2 - U2 ^ 3 - 7 * Zc ^ 6"
      unfolding e2 using c(2) by (simp add: on_curve_dvd)
    have "P dvd (U2 - U1) ^ 6 * (S1 ^ 2 - U1 ^ 3 - 7 * Zc ^ 6)
       + (U2 - U1) ^ 3 * (add_x U1 U2 S1 S2 - U1 * (U2 - U1) ^ 2)
         * ((S2 ^ 2 - U2 ^ 3 - 7 * Zc ^ 6) - (S1 ^ 2 - U1 ^ 3 - 7 * Zc ^ 6))"
      by (intro dvd_add dvd_mult dvd_diff d1 d2)
    then have "P dvd (add_y U1 U2 S1 S2) ^ 2 - (add_x U1 U2 S1 S2) ^ 3
        - 7 * (Zc * (U2 - U1)) ^ 6"
      by (simp only: add_identity)
    from rep_on_curve [OF r(2,3) r(4) [folded Zc_def] this] r(1) show ?thesis by blast
  qed
qed

section \<open>Hexadecimal text\<close>

lemma cvt_zero: "cvt ! 48 = 0"
  by (simp add: cvt_def)

lemma SetHex_step_pad:
  assumes "length s \<le> 64" "i < 64"
  shows "SetHex_step (s @ replicate (64 - length s) CHR ''0'') i tmp = SetHex_step s i tmp"
proof (cases "63 - i < length s")
  case True
  then show ?thesis using assms by (simp add: SetHex_step_def nth_append)
next
  case False
  then have "(s @ replicate (64 - length s) CHR ''0'') ! (63 - i) = CHR ''0''"
    using assms by (simp add: nth_append)
  then show ?thesis using False assms by (simp add: SetHex_step_def cvt_zero)
qed

lemma SetHex_pad:
  assumes "length s \<le> 64"
  shows "SetHex (s @ replicate (64 - length s) CHR ''0'') = SetHex s"
proof -
  have "fold (SetHex_step (s @ replicate (64 - length s) CHR ''0'')) [0..<64] t
      = fold (SetHex_step s) [0..<64] t" for t
    by (rule fold_cong) (auto simp: SetHex_step_pad [OF assms])
  then show ?thesis by (simp add: SetHex_def)
qed

lemma ToString_length: "length (fst (ToString a)) = 64"
  by (simp add: ToString_def split: prod.splits)

lemma ToString_chars: "set (fst (ToString a)) \<subseteq> set hexchars"
proof -
  have "unat (w AND 0xF) < length hexchars" for w :: u64
  proof -
    have "w AND 0xF \<le> 0xF" by (rule word_and_le1)
    then have "unat (w AND 0xF) \<le> 15" by (simp add: word_le_nat_alt)
    then show ?thesis by (simp add: hexchars_def)
  qed
  then show ?thesis
    by (auto simp add: ToString_def split: prod.splits)
qed

lemma m52: "(0xFFFFFFFFFFFFF :: u64) = mask 52"
  by (simp add: mask_eq_exp_minus_1)

lemma m4: "(0xF :: u64) = mask 4"
  by (simp add: mask_eq_exp_minus_1)

lemma limbs52_Set: "limbs52 (Set ws)"
proof -
  have "uint (drop_bit 16 (ws ! 3)) < 2 ^ 48"
    unfolding w_drop using uint_lt2p [of "ws ! 3"] by simp
  then show ?thesis by (simp add: limbs52_def Set_def w_and52)
qed

lemma Set_limb0:
  fixes w0 :: u64
  shows "uint (w0 AND mask 52) = take_bit 52 (uint w0)"
  by (rule bit_eqI) (auto simp add: bit_simps dest: bit_imp_le_length)

lemma Set_limb1:
  fixes w0 w1 :: u64
  shows "uint ((drop_bit 52 w0 OR push_bit 12 w1) AND mask 52)
    = concat_bit 12 (drop_bit 52 (uint w0)) (take_bit 40 (uint w1))"
  by (rule bit_eqI) (auto simp add: bit_simps dest: bit_imp_le_length)

lemma Set_limb2:
  fixes w1 w2 :: u64
  shows "uint ((drop_bit 40 w1 OR push_bit 24 w2) AND mask 52)
    = concat_bit 24 (drop_bit 40 (uint w1)) (take_bit 28 (uint w2))"
  by (rule bit_eqI) (auto simp add: bit_simps dest: bit_imp_le_length)

lemma Set_limb3:
  fixes w2 w3 :: u64
  shows "uint ((drop_bit 28 w2 OR push_bit 36 w3) AND mask 52)
    = concat_bit 36 (drop_bit 28 (uint w2)) (take_bit 16 (uint w3))"
  by (rule bit_eqI) (auto simp add: bit_simps dest: bit_imp_le_length)

lemma Set_limb4:
  fixes w3 :: u64
  shows "uint (drop_bit 16 w3) = drop_bit 16 (uint w3)"
  by (rule bit_eqI) (auto simp add: bit_simps dest: bit_imp_le_length)

lemma div_small:
  fixes W :: int
  assumes "0 \<le> W" "W < 2 ^ 64"
  shows "take_bit (64 - k) (drop_bit k W) = W div 2 ^ k"
proof -
  have "take_bit (64 - k) (drop_bit k W) = drop_bit k (take_bit 64 W)"
    by (simp only: drop_bit_take_bit)
  also have "take_bit 64 W = W" using assms by (simp add: take_bit_int_eq_self)
  finally show ?thesis by (simp only: drop_bit_eq_div)
qed

lemma Set_val: "val (Set ws) = word256 ws"
proof -
  define W0 W1 W2 W3 where W: "W0 = uint (ws ! 0)" "W1 = uint (ws ! 1)" "W2 = uint (ws ! 2)"
    "W3 = uint (ws ! 3)"
  have b: "0 \<le> W0" "W0 < 2 ^ 64" "0 \<le> W1" "W1 < 2 ^ 64" "0 \<le> W2" "W2 < 2 ^ 64"
    "0 \<le> W3" "W3 < 2 ^ 64"
    unfolding W using uint_lt2p [of "ws ! 0"] uint_lt2p [of "ws ! 1"] uint_lt2p [of "ws ! 2"]
      uint_lt2p [of "ws ! 3"] by simp_all
  have l0: "uint (n0 (Set ws)) = W0 mod 2 ^ 52"
    by (simp add: Set_def m52 Set_limb0 take_bit_eq_mod W)
  have "uint (n1 (Set ws)) = concat_bit 12 (drop_bit 52 W0) (take_bit 40 W1)"
    by (simp add: Set_def m52 Set_limb1 W)
  also have "\<dots> = W0 div 2 ^ 52 + 2 ^ 12 * (W1 mod 2 ^ 40)"
    using div_small [OF b(1,2), of 52]
    by (simp add: concat_bit_eq take_bit_eq_mod drop_bit_eq_div push_bit_eq_mult)
  finally have l1: "uint (n1 (Set ws)) = W0 div 2 ^ 52 + 2 ^ 12 * (W1 mod 2 ^ 40)" .
  have "uint (n2 (Set ws)) = concat_bit 24 (drop_bit 40 W1) (take_bit 28 W2)"
    by (simp add: Set_def m52 Set_limb2 W)
  also have "\<dots> = W1 div 2 ^ 40 + 2 ^ 24 * (W2 mod 2 ^ 28)"
    using div_small [OF b(3,4), of 40]
    by (simp add: concat_bit_eq take_bit_eq_mod drop_bit_eq_div push_bit_eq_mult)
  finally have l2: "uint (n2 (Set ws)) = W1 div 2 ^ 40 + 2 ^ 24 * (W2 mod 2 ^ 28)" .
  have "uint (n3 (Set ws)) = concat_bit 36 (drop_bit 28 W2) (take_bit 16 W3)"
    by (simp add: Set_def m52 Set_limb3 W)
  also have "\<dots> = W2 div 2 ^ 28 + 2 ^ 36 * (W3 mod 2 ^ 16)"
    using div_small [OF b(5,6), of 28]
    by (simp add: concat_bit_eq take_bit_eq_mod drop_bit_eq_div push_bit_eq_mult)
  finally have l3: "uint (n3 (Set ws)) = W2 div 2 ^ 28 + 2 ^ 36 * (W3 mod 2 ^ 16)" .
  have "uint (n4 (Set ws)) = drop_bit 16 W3"
    by (simp add: Set_def Set_limb4 W)
  then have l4: "uint (n4 (Set ws)) = W3 div 2 ^ 16"
    by (simp add: drop_bit_eq_div)
  have s: "W0 = W0 mod 2 ^ 52 + 2 ^ 52 * (W0 div 2 ^ 52)"
    "W1 = W1 mod 2 ^ 40 + 2 ^ 40 * (W1 div 2 ^ 40)"
    "W2 = W2 mod 2 ^ 28 + 2 ^ 28 * (W2 div 2 ^ 28)"
    "W3 = W3 mod 2 ^ 16 + 2 ^ 16 * (W3 div 2 ^ 16)" by simp_all
  define a0 b0 a1 b1 a2 b2 a3 b3 where ab: "a0 = W0 mod 2 ^ 52" "b0 = W0 div 2 ^ 52"
    "a1 = W1 mod 2 ^ 40" "b1 = W1 div 2 ^ 40" "a2 = W2 mod 2 ^ 28" "b2 = W2 div 2 ^ 28"
    "a3 = W3 mod 2 ^ 16" "b3 = W3 div 2 ^ 16"
  have "val (Set ws) = a0 + (b0 + 2 ^ 12 * a1) * 2 ^ 52 + (b1 + 2 ^ 24 * a2) * 2 ^ 104
      + (b2 + 2 ^ 36 * a3) * 2 ^ 156 + b3 * 2 ^ 208"
    unfolding val_def l0 l1 l2 l3 l4 ab ..
  also have "\<dots> = (a0 + 2 ^ 52 * b0) + 2 ^ 64 * (a1 + 2 ^ 40 * b1) + 2 ^ 128 * (a2 + 2 ^ 28 * b2)
      + 2 ^ 192 * (a3 + 2 ^ 16 * b3)" by simp
  also have "\<dots> = W0 + 2 ^ 64 * W1 + 2 ^ 128 * W2 + 2 ^ 192 * W3"
    unfolding ab s [symmetric] ..
  finally show ?thesis by (simp add: word256_def W)
qed

lemma cvt_range: "n < 256 \<Longrightarrow> 0 \<le> cvt ! n \<and> cvt ! n \<le> 15"
proof -
  have "list_all (\<lambda>v. 0 \<le> v \<and> v \<le> 15) cvt" by (simp add: cvt_def)
  moreover have "length cvt = 256" by (simp add: cvt_def)
  ultimately show "n < 256 \<Longrightarrow> 0 \<le> cvt ! n \<and> cvt ! n \<le> 15"
    by (simp add: list_all_length)
qed

lemma nib_or:
  fixes w d :: u64
  assumes "mi < 16" "mj < 16" "take_bit 4 d = d"
  shows "drop_bit (mj * 4) (w OR push_bit (mi * 4) d) AND mask 4
     = (drop_bit (mj * 4) w AND mask 4) OR (if mi = mj then d else 0)"
proof -
  have d: "bit d m \<Longrightarrow> m < 4" for m
  proof -
    assume "bit d m"
    then have "bit (take_bit 4 d) m" by (simp only: assms(3))
    then show "m < 4" by (simp add: bit_take_bit_iff)
  qed
  show ?thesis
    using assms(1,2) by (rule_tac bit_eqI) (auto simp add: bit_simps dest: d bit_imp_le_length)
qed

lemma of_char_bound: "(of_char c :: nat) < 256"
proof -
  have "(of_char c :: nat) = of_char c mod 256" by (simp only: of_char_mod_256)
  also have "\<dots> < 256" by simp
  finally show ?thesis .
qed

lemma digit_range: "0 \<le> digit s k \<and> digit s k \<le> 15"
  using cvt_range [OF of_char_bound] by (simp add: digit_def)

lemma uint_digit: "uint (word_of_int (digit s k) :: u64) = digit s k"
  using digit_range [of s k] by (simp add: uint_word_of_int)

lemma take_bit_digit: "take_bit 4 (word_of_int (digit s k) :: u64) = word_of_int (digit s k)"
proof (rule word_uint_eqI)
  have "take_bit 4 (digit s k) = digit s k"
    using digit_range [of s k] by (simp add: take_bit_int_eq_self)
  then show "uint (take_bit 4 (word_of_int (digit s k) :: u64)) = uint (word_of_int (digit s k) :: u64)"
    by (simp add: unsigned_take_bit_eq uint_digit)
qed

lemma SetHex_step_digit:
  assumes "i < 64"
  shows "SetHex_step s i tmp
    = tmp[i div 16 := tmp ! (i div 16)
            OR push_bit ((i mod 16) * 4) (word_of_int (digit s (63 - i)))]"
  using assms by (simp add: SetHex_step_def digit_def)

lemma nib_update:
  assumes "i < 64" "j < 64" "length tmp = 4" "take_bit 4 d = d"
  shows "nib (tmp[i div 16 := tmp ! (i div 16) OR push_bit ((i mod 16) * 4) d]) j
     = (if j = i then nib tmp i OR d else nib tmp j)"
proof (cases "j div 16 = i div 16")
  case True
  have lt: "i div 16 < length tmp" using assms(1,3) by simp
  have m: "i mod 16 < 16" "j mod 16 < 16" by simp_all
  have e: "(i mod 16 = j mod 16) = (j = i)" using True by (metis div_mult_mod_eq)
  show ?thesis
    unfolding nib_def True m4 nth_list_update_eq [OF lt] nib_or [OF m assms(4)] e
    by simp
next
  case False
  then have "j \<noteq> i" by auto
  with False show ?thesis by (simp add: nib_def)
qed

lemma nib_zero: "j < 64 \<Longrightarrow> nib [0, 0, 0, 0] j = 0"
proof -
  assume "j < 64"
  then have "j div 16 < 4" by simp
  then have "[0, 0, 0, 0 :: u64] ! (j div 16) = 0"
    by (auto simp add: nth_Cons' )
  then show ?thesis by (simp add: nib_def)
qed

lemma fold_nib:
  assumes "n \<le> 64"
  shows "length (fold (SetHex_step s) [0..<n] [0, 0, 0, 0]) = 4
     \<and> (\<forall>j<64. nib (fold (SetHex_step s) [0..<n] [0, 0, 0, 0]) j
            = (if j < n then word_of_int (digit s (63 - j)) else 0))"
  using assms
proof (induction n)
  case 0
  then show ?case by (simp add: nib_zero)
next
  case (Suc n)
  define t where "t = fold (SetHex_step s) [0..<n] [0, 0, 0, 0]"
  from Suc have n: "n < 64" and l: "length t = 4"
    and h: "\<And>j. j < 64 \<Longrightarrow> nib t j = (if j < n then word_of_int (digit s (63 - j)) else 0)"
    by (simp_all add: t_def)
  have f: "fold (SetHex_step s) [0..<Suc n] [0, 0, 0, 0]
      = t[n div 16 := t ! (n div 16)
            OR push_bit ((n mod 16) * 4) (word_of_int (digit s (63 - n)))]"
    by (simp add: t_def SetHex_step_digit [OF n])
  have "nib (fold (SetHex_step s) [0..<Suc n] [0, 0, 0, 0]) j
      = (if j < Suc n then word_of_int (digit s (63 - j)) else 0)" if j: "j < 64" for j
    unfolding f nib_update [OF n j l take_bit_digit]
    using h [OF j] h [OF n] by (auto simp add: less_Suc_eq)
  moreover have "length (fold (SetHex_step s) [0..<Suc n] [0, 0, 0, 0]) = 4"
    unfolding f using l by simp
  ultimately show ?case by blast
qed

lemma uint_nib_word:
  fixes w :: u64
  shows "uint (drop_bit k w AND mask 4) = take_bit 4 (drop_bit k (uint w))"
  by (rule bit_eqI) (auto simp add: bit_simps dest: bit_imp_le_length)

lemma pow16: "(2::int) ^ (m * 4) = 16 ^ m"
proof -
  have "(2::int) ^ (m * 4) = (2 ^ 4) ^ m" by (simp only: power_mult mult.commute [of m 4])
  then show ?thesis by simp
qed

lemma uint_nib: "uint (nib ws i) = uint (ws ! (i div 16)) div 16 ^ (i mod 16) mod 16"
  unfolding nib_def m4 uint_nib_word
  by (simp add: take_bit_eq_mod drop_bit_eq_div pow16)

lemma nibble_shift:
  fixes W R :: int
  assumes "0 \<le> W" "W < 2 ^ 64" "m < 16"
  shows "(W + 2 ^ 64 * R) div 16 ^ m mod 16 = W div 16 ^ m mod 16"
proof -
  have "take_bit 4 (drop_bit (m * 4) (concat_bit 64 W R)) = take_bit 4 (drop_bit (m * 4) W)"
    using assms(3) by (rule_tac bit_eqI) (auto simp add: bit_simps)
  moreover have "concat_bit 64 W R = W + 2 ^ 64 * R"
    using assms(1,2) by (simp add: concat_bit_eq take_bit_int_eq_self push_bit_eq_mult)
  ultimately show ?thesis
    by (simp add: take_bit_eq_mod drop_bit_eq_div pow16)
qed

lemma div64:
  fixes W R :: int
  assumes "0 \<le> W" "W < 2 ^ 64"
  shows "(W + 2 ^ 64 * R) div 2 ^ 64 = R"
  using assms by (simp add: div_pos_pos_trivial)

lemma nib_word256:
  assumes "i < 64"
  shows "uint (nib ws i) = word256 ws div 16 ^ i mod 16"
proof -
  define W0 W1 W2 W3 where W: "W0 = uint (ws ! 0)" "W1 = uint (ws ! 1)" "W2 = uint (ws ! 2)"
    "W3 = uint (ws ! 3)"
  have b: "0 \<le> W0" "W0 < 2 ^ 64" "0 \<le> W1" "W1 < 2 ^ 64" "0 \<le> W2" "W2 < 2 ^ 64"
    "0 \<le> W3" "W3 < 2 ^ 64"
    unfolding W using uint_lt2p [of "ws ! 0"] uint_lt2p [of "ws ! 1"] uint_lt2p [of "ws ! 2"]
      uint_lt2p [of "ws ! 3"] by simp_all
  define m where "m = i mod 16"
  have m: "m < 16" by (simp add: m_def)
  define X2 X1 where X: "X2 = W2 + 2 ^ 64 * (W3 + 2 ^ 64 * 0)" "X1 = W1 + 2 ^ 64 * X2"
  have w: "word256 ws = W0 + 2 ^ 64 * X1" by (simp add: word256_def W X)
  have p: "(16::int) ^ (16 + m) = 2 ^ 64 * 16 ^ m" "(16::int) ^ (32 + m) = 2 ^ 64 * (2 ^ 64 * 16 ^ m)"
    "(16::int) ^ (48 + m) = 2 ^ 64 * (2 ^ 64 * (2 ^ 64 * 16 ^ m))"
  proof -
    have q: "(16::int) ^ 16 = 2 ^ 64" "(16::int) ^ 32 = 2 ^ 64 * 2 ^ 64"
      "(16::int) ^ 48 = 2 ^ 64 * (2 ^ 64 * 2 ^ 64)" by simp_all
    show "(16::int) ^ (16 + m) = 2 ^ 64 * 16 ^ m" unfolding power_add q(1) ..
    show "(16::int) ^ (32 + m) = 2 ^ 64 * (2 ^ 64 * 16 ^ m)"
      unfolding power_add q(2) by (simp only: mult.assoc)
    show "(16::int) ^ (48 + m) = 2 ^ 64 * (2 ^ 64 * (2 ^ 64 * 16 ^ m))"
      unfolding power_add q(3) by (simp only: mult.assoc)
  qed
  have d1: "word256 ws div 2 ^ 64 = X1" unfolding w by (rule div64 [OF b(1,2)])
  have d2: "X1 div 2 ^ 64 = X2" unfolding X(2) by (rule div64 [OF b(3,4)])
  have d3: "X2 div 2 ^ 64 = W3 + 2 ^ 64 * 0" unfolding X(1) by (rule div64 [OF b(5,6)])
  have n: "(0::int) \<le> 16 ^ m" "(0::int) \<le> 2 ^ 64 * 16 ^ m"
    "(0::int) \<le> 2 ^ 64 * (2 ^ 64 * 16 ^ m)" by simp_all
  have e: "i = 16 * (i div 16) + m" unfolding m_def by simp
  have "i div 16 < 4" using assms by simp
  then consider (0) "i div 16 = 0" | (1) "i div 16 = 1" | (2) "i div 16 = 2"
    | (3) "i div 16 = 3" by linarith
  then show ?thesis
  proof cases
    case 0
    with e have i: "i = m" by simp
    have "word256 ws div 16 ^ m mod 16 = W0 div 16 ^ m mod 16"
      unfolding w by (rule nibble_shift [OF b(1,2) m])
    then show ?thesis unfolding uint_nib 0 m_def [symmetric] W
      using i by simp
  next
    case 1
    with e have i: "i = 16 + m" by simp
    have "word256 ws div 16 ^ (16 + m) mod 16 = X1 div 16 ^ m mod 16"
      by (simp only: p zdiv_zmult2_eq [OF n(1)] d1)
    also have "\<dots> = W1 div 16 ^ m mod 16"
      unfolding X(2) by (rule nibble_shift [OF b(3,4) m])
    finally show ?thesis unfolding uint_nib 1 m_def [symmetric] W
      using i by simp
  next
    case 2
    with e have i: "i = 32 + m" by simp
    have "word256 ws div 16 ^ (32 + m) mod 16 = X2 div 16 ^ m mod 16"
      by (simp only: p zdiv_zmult2_eq [OF n(2)] zdiv_zmult2_eq [OF n(1)] d1 d2)
    also have "\<dots> = W2 div 16 ^ m mod 16"
      unfolding X(1) by (rule nibble_shift [OF b(5,6) m])
    finally show ?thesis unfolding uint_nib 2 m_def [symmetric] W
      using i by simp
  next
    case 3
    with e have i: "i = 48 + m" by simp
    have "word256 ws div 16 ^ (48 + m) mod 16 = (W3 + 2 ^ 64 * 0) div 16 ^ m mod 16"
      by (simp only: p zdiv_zmult2_eq [OF n(3)] zdiv_zmult2_eq [OF n(2)]
            zdiv_zmult2_eq [OF n(1)] d1 d2 d3)
    then show ?thesis unfolding uint_nib 3 m_def [symmetric] W
      using i by simp
  qed
qed

lemma SetHex_nibble:
  assumes "k < 64"
  shows "val (SetHex s) div 16 ^ (63 - k) mod 16 = digit s k"
proof -
  define t where "t = fold (SetHex_step s) [0..<64] [0, 0, 0, 0]"
  have j: "63 - k < 64" by simp
  from fold_nib [of 64 s] j have "nib t (63 - k) = word_of_int (digit s (63 - (63 - k)))"
    by (simp add: t_def)
  then have "uint (nib t (63 - k)) = digit s k" using assms by (simp add: uint_digit)
  then show ?thesis
    by (simp add: SetHex_def Set_val nib_word256 [OF j] t_def)
qed

lemma Get_word0:
  fixes a b :: u64
  shows "uint (take_bit 52 a OR push_bit 52 b) = concat_bit 52 (uint a) (take_bit 12 (uint b))"
  by (rule bit_eqI) (auto simp add: bit_simps dest: bit_imp_le_length)

lemma Get_word1:
  fixes a b :: u64
  shows "uint (drop_bit 12 (take_bit 52 a) OR push_bit 40 b)
    = concat_bit 40 (drop_bit 12 (take_bit 52 (uint a))) (take_bit 24 (uint b))"
  by (rule bit_eqI) (auto simp add: bit_simps dest: bit_imp_le_length)

lemma Get_word2:
  fixes a b :: u64
  shows "uint (drop_bit 24 (take_bit 52 a) OR push_bit 28 b)
    = concat_bit 28 (drop_bit 24 (take_bit 52 (uint a))) (take_bit 36 (uint b))"
  by (rule bit_eqI) (auto simp add: bit_simps dest: bit_imp_le_length)

lemma Get_word3:
  fixes a b :: u64
  shows "uint (drop_bit 36 (take_bit 52 a) OR push_bit 16 b)
    = concat_bit 16 (drop_bit 36 (take_bit 52 (uint a))) (take_bit 48 (uint b))"
  by (rule bit_eqI) (auto simp add: bit_simps dest: bit_imp_le_length)

lemma take_bit52_word:
  fixes w :: u64
  assumes "uint w < 2 ^ 52"
  shows "take_bit 52 w = w"
proof (rule word_uint_eqI)
  show "uint (take_bit 52 w) = uint w"
    using assms by (simp add: unsigned_take_bit_eq take_bit_int_eq_self)
qed

lemma div_small52:
  fixes N :: int
  shows "take_bit (52 - k) (drop_bit k (take_bit 52 N)) = take_bit 52 N div 2 ^ k"
proof -
  have "take_bit (52 - k) (drop_bit k (take_bit 52 N)) = drop_bit k (take_bit 52 (take_bit 52 N))"
    by (simp only: drop_bit_take_bit)
  then show ?thesis by (simp add: drop_bit_eq_div)
qed

lemma Get_words_val:
  assumes l: "limbs52 b"
  shows "word256 [n0 b OR push_bit 52 (n1 b), drop_bit 12 (n1 b) OR push_bit 40 (n2 b),
                  drop_bit 24 (n2 b) OR push_bit 28 (n3 b),
                  drop_bit 36 (n3 b) OR push_bit 16 (n4 b)] = val b"
proof -
  define N0 N1 N2 N3 N4 where N: "N0 = uint (n0 b)" "N1 = uint (n1 b)" "N2 = uint (n2 b)"
    "N3 = uint (n3 b)" "N4 = uint (n4 b)"
  from l have bd: "N0 < 2 ^ 52" "N1 < 2 ^ 52" "N2 < 2 ^ 52" "N3 < 2 ^ 52" "N4 < 2 ^ 48"
    by (simp_all add: limbs52_def N)
  have nn: "0 \<le> N0" "0 \<le> N1" "0 \<le> N2" "0 \<le> N3" "0 \<le> N4" by (simp_all add: N)
  have t: "take_bit 52 (n0 b) = n0 b" "take_bit 52 (n1 b) = n1 b" "take_bit 52 (n2 b) = n2 b"
    "take_bit 52 (n3 b) = n3 b"
    using l by (simp_all add: limbs52_def take_bit52_word)
  have ti: "take_bit 52 N0 = N0" "take_bit 52 N1 = N1" "take_bit 52 N2 = N2"
    "take_bit 52 N3 = N3" "take_bit 48 N4 = N4"
    using bd nn by (simp_all add: take_bit_int_eq_self)
  have "uint (n0 b OR push_bit 52 (n1 b)) = uint (take_bit 52 (n0 b) OR push_bit 52 (n1 b))"
    by (simp only: t)
  also have "\<dots> = concat_bit 52 N0 (take_bit 12 N1)" unfolding Get_word0 N ..
  also have "\<dots> = N0 + 2 ^ 52 * (N1 mod 2 ^ 12)"
    unfolding concat_bit_eq ti by (simp add: push_bit_eq_mult take_bit_eq_mod)
  finally have w0: "uint (n0 b OR push_bit 52 (n1 b)) = N0 + 2 ^ 52 * (N1 mod 2 ^ 12)" .
  have "uint (drop_bit 12 (n1 b) OR push_bit 40 (n2 b))
      = uint (drop_bit 12 (take_bit 52 (n1 b)) OR push_bit 40 (n2 b))" by (simp only: t)
  also have "\<dots> = concat_bit 40 (drop_bit 12 (take_bit 52 N1)) (take_bit 24 N2)"
    unfolding Get_word1 N ..
  also have "\<dots> = N1 div 2 ^ 12 + 2 ^ 40 * (N2 mod 2 ^ 24)"
  proof -
    have "take_bit 40 (drop_bit 12 (take_bit 52 N1)) = N1 div 2 ^ 12"
      using div_small52 [of 12 N1] by (simp add: ti)
    then show ?thesis
      unfolding concat_bit_eq ti by (simp add: push_bit_eq_mult take_bit_eq_mod)
  qed
  finally have w1: "uint (drop_bit 12 (n1 b) OR push_bit 40 (n2 b))
      = N1 div 2 ^ 12 + 2 ^ 40 * (N2 mod 2 ^ 24)" .
  have "uint (drop_bit 24 (n2 b) OR push_bit 28 (n3 b))
      = uint (drop_bit 24 (take_bit 52 (n2 b)) OR push_bit 28 (n3 b))" by (simp only: t)
  also have "\<dots> = concat_bit 28 (drop_bit 24 (take_bit 52 N2)) (take_bit 36 N3)"
    unfolding Get_word2 N ..
  also have "\<dots> = N2 div 2 ^ 24 + 2 ^ 28 * (N3 mod 2 ^ 36)"
  proof -
    have "take_bit 28 (drop_bit 24 (take_bit 52 N2)) = N2 div 2 ^ 24"
      using div_small52 [of 24 N2] by (simp add: ti)
    then show ?thesis
      unfolding concat_bit_eq ti by (simp add: push_bit_eq_mult take_bit_eq_mod)
  qed
  finally have w2: "uint (drop_bit 24 (n2 b) OR push_bit 28 (n3 b))
      = N2 div 2 ^ 24 + 2 ^ 28 * (N3 mod 2 ^ 36)" .
  have "uint (drop_bit 36 (n3 b) OR push_bit 16 (n4 b))
      = uint (drop_bit 36 (take_bit 52 (n3 b)) OR push_bit 16 (n4 b))" by (simp only: t)
  also have "\<dots> = concat_bit 16 (drop_bit 36 (take_bit 52 N3)) (take_bit 48 N4)"
    unfolding Get_word3 N ..
  also have "\<dots> = N3 div 2 ^ 36 + 2 ^ 16 * N4"
  proof -
    have "take_bit 16 (drop_bit 36 (take_bit 52 N3)) = N3 div 2 ^ 36"
      using div_small52 [of 36 N3] by (simp add: ti)
    then show ?thesis
      unfolding concat_bit_eq ti by (simp add: push_bit_eq_mult take_bit_eq_mod)
  qed
  finally have w3: "uint (drop_bit 36 (n3 b) OR push_bit 16 (n4 b))
      = N3 div 2 ^ 36 + 2 ^ 16 * N4" .
  define a1 b1 a2 b2 a3 b3 where ab: "a1 = N1 mod 2 ^ 12" "b1 = N1 div 2 ^ 12"
    "a2 = N2 mod 2 ^ 24" "b2 = N2 div 2 ^ 24" "a3 = N3 mod 2 ^ 36" "b3 = N3 div 2 ^ 36"
  have s: "N1 = a1 + 2 ^ 12 * b1" "N2 = a2 + 2 ^ 24 * b2" "N3 = a3 + 2 ^ 36 * b3"
    by (simp_all add: ab)
  have "word256 [n0 b OR push_bit 52 (n1 b), drop_bit 12 (n1 b) OR push_bit 40 (n2 b),
                  drop_bit 24 (n2 b) OR push_bit 28 (n3 b),
                  drop_bit 36 (n3 b) OR push_bit 16 (n4 b)]
      = (N0 + 2 ^ 52 * a1) + 2 ^ 64 * (b1 + 2 ^ 40 * a2) + 2 ^ 128 * (b2 + 2 ^ 28 * a3)
        + 2 ^ 192 * (b3 + 2 ^ 16 * N4)"
    by (simp add: word256_def w0 w1 w2 w3 ab)
  also have "\<dots> = N0 + (a1 + 2 ^ 12 * b1) * 2 ^ 52 + (a2 + 2 ^ 24 * b2) * 2 ^ 104
      + (a3 + 2 ^ 36 * b3) * 2 ^ 156 + N4 * 2 ^ 208" by simp
  also have "\<dots> = val b" unfolding s [symmetric] by (simp add: val_def N)
  finally show ?thesis .
qed

lemma ToString_nth:
  assumes "k < 64"
  shows "fst (ToString a) ! k = hexchars ! nat (val (Normalize a) div 16 ^ (63 - k) mod 16)"
proof -
  define tmp where "tmp = fst (Get a)"
  have g: "Get a = (tmp, Normalize a)" by (simp add: tmp_def Get_def Let_def)
  have v: "word256 tmp = val (Normalize a)"
    unfolding tmp_def Get_def Let_def fst_conv by (rule Get_words_val [OF Normalize_limbs52])
  have r: "rev [0..<64] ! k = 63 - k" using assms by (simp add: rev_nth)
  have j: "63 - k < 64" by simp
  have "fst (ToString a) ! k = hexchars ! unat (nib tmp (63 - k))"
    using assms by (simp add: ToString_def g r nib_def)
  also have "unat (nib tmp (63 - k)) = nat (uint (nib tmp (63 - k)))" by simp
  finally show ?thesis by (simp only: nib_word256 [OF j] v)
qed

lemma snd_ToString: "snd (ToString a) = Normalize a"
  by (simp add: ToString_def Get_def Let_def)

section \<open>Facts about the concrete points\<close>

lemma P0_operand: "operand (px P0)" "operand (py P0)" "operand (pz P0)"
  by (simp_all add: P0_def operand_def)

lemma curve_sides_P0:
  "curve_sides P0 = Some
    (\<lparr>n0 = 0xC1409F2508978, n1 = 0xADD941BA6DA1E, n2 = 0xCEC6C472424E7,
      n3 = 0x790C7C8ED2DB4, n4 = 0x764CE7860FB8\<rparr>,
     \<lparr>n0 = 0x4C1406F2507E05, n1 = 0x6ADD941BA6DA1A, n2 = 0x7CEC6C472424E1,
      n3 = 0x5790C7C8ED2DAD, n4 = 0x3764CE7860FB3\<rparr>)"
  by code_simp

lemma P0_on_curve: "on_curve P0"
  unfolding on_curve_iff [OF P0_operand curve_sides_P0] by (simp add: val_def P_def)

lemma IsValid_P0: "IsValid P0 = Some True"
  by code_simp

lemma SetDouble_P0: "SetDouble G P0 = Some P0_doubled"
  by code_simp

lemma IsValid_P0_doubled: "IsValid P0_doubled = Some False"
  by code_simp













lemma PW_operand: "operand (px PW)" "operand (py PW)" "operand (pz PW)"
  by (simp_all add: PW_def GroupElemJac_xy_def FieldElem_int_def operand_def)

lemma curve_sides_PW:
  "curve_sides PW = Some
     (\<lparr>n0 = 0xBB1E33795F678, n1 = 0x100000B73002, n2 = 0, n3 = 0, n4 = 0\<rparr>,
      \<lparr>n0 = 0xBB1E33795F678, n1 = 0x100000B73002, n2 = 0, n3 = 0, n4 = 0\<rparr>)"
  by code_simp

lemma PW_on_curve: "on_curve PW"
  unfolding on_curve_iff [OF PW_operand curve_sides_PW] by simp

lemma SetAdd_fresh_G_G: "SetAdd GroupElemJac_inf G G = Some GroupElemJac_inf"
  by code_simp

lemma SetAdd_G_twice_G_G: "map_option fInfinity (SetAdd G_twice G G) = Some False"
  by code_simp

lemma SetAdd_affine_PW: "map_option fInfinity (SetAdd_affine GroupElemJac_inf PW PW_neg) = Some False"
  by code_simp

lemma PY_operand: "operand (px PY)" "operand (py PY)" "operand (pz PY)"
  "operand (px PY_canonical)" "operand (py PY_canonical)" "operand (pz PY_canonical)"
  "operand (px PY_doubled)" "operand (py PY_doubled)" "operand (pz PY_doubled)"
  by (simp_all add: PY_def PY_canonical_def PY_doubled_def GroupElemJac_xy_def FieldElem_int_def
        operand_def)

lemma curve_sides_PY:
  "curve_sides PY = Some
     (\<lparr>n0 = 0x1E670039C4D3, n1 = 0x10000000004000, n2 = 0xFFFFFFFFFFFFF,
       n3 = 0xFFFFFFFFFFFFF, n4 = 0xFFFFFFFFFFFF\<rparr>,
      \<lparr>n0 = 0x1E680039C8A4, n1 = 0x4000, n2 = 0, n3 = 0, n4 = 0\<rparr>)"
  by code_simp

lemma curve_sides_PY_canonical:
  "curve_sides PY_canonical = Some
     (\<lparr>n0 = 0x1E680039C8A4, n1 = 0x4000, n2 = 0, n3 = 0, n4 = 0\<rparr>,
      \<lparr>n0 = 0x1E680039C8A4, n1 = 0x4000, n2 = 0, n3 = 0, n4 = 0\<rparr>)"
  by code_simp

lemma curve_sides_PY_doubled:
  "curve_sides PY_doubled = Some
     (\<lparr>n0 = 0x2DC59F0387FB1, n1 = 0xC1A74A49E96D4, n2 = 0x2D027793623FF,
       n3 = 0x5EDB217676426, n4 = 0x28AFCC1DB98D\<rparr>,
      \<lparr>n0 = 0x6C761D61C42531, n1 = 0x5F68AF4E4B132B, n2 = 0x368317E65B9512,
       n3 = 0x94CA42E56C8BC, n4 = 0x28C68A1EE741\<rparr>)"
  by code_simp

lemma SetAdd_self_PY: "SetAdd_self PY PY_canonical = Some PY_doubled"
  by code_simp

lemma SetAdd_self_leaves_curve:
  "\<not> fInfinity PY \<and> on_curve PY \<and> \<not> fInfinity PY_canonical \<and> on_curve PY_canonical
   \<and> val (px PY) = val (px PY_canonical) \<and> val (py PY) mod P = val (py PY_canonical) mod P
   \<and> val (pz PY) = val (pz PY_canonical)
   \<and> SetAdd_self PY PY_canonical = Some PY_doubled
   \<and> \<not> fInfinity PY_doubled \<and> \<not> on_curve PY_doubled"
proof -
  have 1: "on_curve PY"
    unfolding on_curve_iff [OF PY_operand(1-3) curve_sides_PY] by (simp add: val_def P_def)
  have 2: "on_curve PY_canonical"
    unfolding on_curve_iff [OF PY_operand(4-6) curve_sides_PY_canonical] by simp
  have 3: "\<not> on_curve PY_doubled"
    unfolding on_curve_iff [OF PY_operand(7-9) curve_sides_PY_doubled]
    by (simp add: val_def P_def)
  have 4: "val (py PY) mod P = val (py PY_canonical) mod P"
    by (simp add: PY_def PY_canonical_def GroupElemJac_xy_def FieldElem_int_def val_def P_def)
  have 5: "\<not> fInfinity PY" "\<not> fInfinity PY_canonical" "\<not> fInfinity PY_doubled"
    "val (px PY) = val (px PY_canonical)" "val (pz PY) = val (pz PY_canonical)"
    by (simp_all add: PY_def PY_canonical_def PY_doubled_def GroupElemJac_xy_def)
  from 1 2 3 4 5 SetAdd_self_PY show ?thesis by simp
qed

lemma SetHex_1: "SetHex ''1'' = \<lparr>n0 = 0, n1 = 0, n2 = 0, n3 = 0, n4 = 0x100000000000\<rparr>"
  by code_simp

lemma SetHex_0_1: "SetHex (replicate 63 CHR ''0'' @ ''1'') = FieldElem_int 1"
  by code_simp

lemma ToString_31: "fst (ToString (FieldElem_int 31)) = replicate 62 CHR ''0'' @ ''1F''"
  by code_simp

lemma SetDouble_flagged_G:
  "map_option fInfinity (SetDouble (G_twice\<lparr>fInfinity := True\<rparr>) G) = Some True"
  by code_simp

lemma SetAdd_flagged_G_G:
  "map_option fInfinity (SetAdd (G_twice\<lparr>fInfinity := True\<rparr>) G G) = Some False"
  by code_simp

section \<open>The claims\<close>

text \<open>
  Claim C1 says that \<open>SetInverse a\<close> stands for \<open>a^(p-2)\<close>, the inverse of \<open>a\<close>. Line 297
  computes \<open>a4\<close> as \<open>SetSquare(a)\<close>, so \<open>a4\<close> is \<open>a^2\<close>, and every later power of the chain is
  off: the result is \<open>a^e\<close> for the exponent \<open>e\<close> of \<open>SetInverse_power\<close>, which is not
  \<open>p - 2\<close>. On \<open>beta\<close>, a cube root of unity, \<open>e\<close> being a multiple of 3, the result stands
  for 1, and \<open>1 * beta\<close> is not 1 modulo \<open>p\<close>.
\<close>

theorem SetInverse_not_inverse:
  "mag 1 beta \<and> val beta mod P \<noteq> 0
   \<and> (\<exists>r. SetInverse beta = Some r \<and> val r mod P = 1
          \<and> (val r * val beta) mod P
              = 0x7AE96A2B657C07106E64479EAC3434E99CF0497512F58995C1396C28719501EE)"
proof -
  have v: "val beta = 0x7AE96A2B657C07106E64479EAC3434E99CF0497512F58995C1396C28719501EE"
    by (simp add: val_def beta_def)
  have m: "mag 1 beta" by (simp add: mag_def beta_def)
  have o: "operand beta" by (simp add: operand_def beta_def)
  have nz: "val beta mod P \<noteq> 0" unfolding v by (simp add: P_def)
  have cube: "val beta ^ 3 = 1 + P * 1483946927360417822501274509034672106157015457196489396257941211240901944693221982122235317091394243679439360997738427294840109377245348794059447355367801"
    unfolding v by (simp add: P_def power3_eq_cube)
  have e3: "(0x9e799e6799e6799e6799e6799e6799e6799e6799e6799e6799e6799de799e41d :: nat)
      = 3 * 23893437279999722021206683887270491738417605890041605879965053151681016537439"
    by simp
  from SetInverse_power [OF o] obtain r where r: "SetInverse beta = Some r"
    "val r mod P
       = val beta ^ 0x9e799e6799e6799e6799e6799e6799e6799e6799e6799e6799e6799de799e41d mod P"
    by blast
  have "val beta ^ 0x9e799e6799e6799e6799e6799e6799e6799e6799e6799e6799e6799de799e41d mod P
      = (val beta ^ 3) ^ 23893437279999722021206683887270491738417605890041605879965053151681016537439 mod P"
    unfolding e3 by (simp only: power_mult)
  also have "\<dots> = (val beta ^ 3 mod P) ^ 23893437279999722021206683887270491738417605890041605879965053151681016537439 mod P"
    by (simp only: power_mod)
  also have "val beta ^ 3 mod P = 1 mod P" unfolding cube by (simp only: mod_mult_self2)
  also have "(1 mod P) ^ 23893437279999722021206683887270491738417605890041605879965053151681016537439 mod P = 1"
    by (simp add: P_def)
  finally have one: "val r mod P = 1" using r(2) by simp
  have "(val r * val beta) mod P = ((val r mod P) * val beta) mod P"
    by (simp only: mod_mult_left_eq)
  also have "\<dots> = val beta mod P" by (simp add: one)
  also have "\<dots> = 0x7AE96A2B657C07106E64479EAC3434E99CF0497512F58995C1396C28719501EE"
    unfolding v by (simp add: P_def)
  finally show ?thesis using m nz r(1) one by blast
qed

text \<open>The exponent the chain reaches differs from \<open>p - 2\<close>.\<close>

lemma SetInverse_exponent_wrong:
  "int 0x9e799e6799e6799e6799e6799e6799e6799e6799e6799e6799e6799de799e41d \<noteq> P - 2"
  by (simp add: P_def)

text \<open>
  Claim C2. For all \<open>a\<close>, \<open>b\<close> whose limbs satisfy the magnitude-8 bounds, \<open>SetMult a b\<close>
  returns (no \<open>__int128\<close> operation overflows: the model returns \<open>Some\<close>), the value of the
  result is congruent to \<open>a * b\<close> modulo \<open>p\<close>, and the limbs of the result satisfy the
  magnitude-1 bounds as \<open>SetMult\<close> leaves them, with no call of \<open>Normalize\<close>. The same holds
  of \<open>SetSquare a\<close> and \<open>a * a\<close>.
\<close>

theorem SetMult_SetSquare_magnitude8:
  "mag 8 a \<Longrightarrow> mag 8 b \<Longrightarrow>
     (\<exists>r. SetMult a b = Some r \<and> val r mod P = (val a * val b) mod P \<and> mag 1 r)
   \<and> (\<exists>r. SetSquare a = Some r \<and> val r mod P = (val a * val a) mod P \<and> mag 1 r)"
  using SetMult_ok [of a b] SetSquare_ok [of a] mag8_operand mult_out_mag1 by blast

theorem SetMult_SetSquare_magnitude8_witness:
  "mag 8 max8 \<and> mag 8 edge_input
   \<and> (\<exists>r. SetMult max8 edge_input = Some r
          \<and> val r mod P = (val max8 * val edge_input) mod P \<and> mag 1 r)
   \<and> (\<exists>r. SetSquare max8 = Some r \<and> val r mod P = (val max8 * val max8) mod P \<and> mag 1 r)"
proof -
  have h1: "mag 8 max8" by (simp add: mag_def max8_def)
  have h2: "mag 8 edge_input" by (simp add: mag_def edge_input_def)
  show ?thesis using h1 h2 SetMult_SetSquare_magnitude8 [OF h1 h2] by blast
qed

text \<open>
  Claim C3 says that \<open>Normalize\<close> keeps the value modulo \<open>p\<close> for every input within the
  magnitude-\<open>M\<close> bounds, \<open>M \<le> 8\<close>, and that one carry pass after folding the top overflow
  always suffices. On \<open>carry_input\<close>, within the magnitude-1 bounds, the second pass
  overflows the top limb again, the carry of line 64 is dropped, and the result stands for
  \<open>0x1000003D0\<close> while the input stands for \<open>0x2000007A1\<close> modulo \<open>p\<close>.
\<close>

theorem Normalize_drops_second_carry:
  "mag 1 carry_input
   \<and> Normalize carry_input = FieldElem_int 0x1000003D0
   \<and> val (Normalize carry_input) mod P = 0x1000003D0
   \<and> val carry_input mod P = 0x2000007A1"
  by (simp add: Normalize_def Let_def mag_def val_def P_def carry_input_def FieldElem_int_def)

text \<open>The same on an element the public operations build: \<open>Set\<close> of four words of ones,
  added to itself (magnitude 2).\<close>

lemma Normalize_ones_twice:
  "mag 2 ones_twice
   \<and> Normalize ones_twice = FieldElem_int 0x1000003CF
   \<and> val ones_twice mod P = 0x2000007A0"
  by (simp add: Normalize_def Let_def Set_def add_def FieldElem_int_def val_def P_def mag_def
        ones_twice_def)

text \<open>
  Claim C4 says what \<open>SetDouble\<close> yields from its argument \<open>p\<close> alone, whatever the receiver
  held before. Line 468 tests the receiver's \<open>y\<close>, not \<open>p.y\<close>: a freshly constructed receiver
  (the point at infinity, \<open>y = 0\<close>) doubles the generator \<open>G\<close>, a point of the curve with
  \<open>y\<close> not 0 modulo \<open>p\<close>, to the point at infinity.
\<close>

theorem SetDouble_tests_receiver:
  "\<not> fInfinity G \<and> val (py G) mod P \<noteq> 0
   \<and> val (py G) ^ 2 mod P = (val (px G) ^ 3 + 7 * val (pz G) ^ 6) mod P
   \<and> SetDouble GroupElemJac_inf G = Some GroupElemJac_inf
   \<and> fInfinity GroupElemJac_inf"
  by (simp add: G_def GroupElemJac_xy_def GroupElemJac_inf_def FieldElem_int_def SetDouble_def
        IsZero_def Normalize_def val_def P_def)




text \<open>
  Claim C6 says which branch \<open>SetAdd\<close> takes and what it yields: for finite \<open>p\<close>, \<open>q\<close> with
  \<open>U1 = U2\<close> and \<open>S1 = S2\<close> the double of \<open>p\<close>, with \<open>U1 = U2\<close> and \<open>S1 \<noteq> S2\<close> the point at
  infinity. The code does not: (1) \<open>SetAdd(G, G)\<close> on a default-constructed receiver leaves
  the receiver flagged infinity, the doubling branch being the call \<open>SetDouble(p)\<close>, which
  tests the receiver's \<open>y\<close> (line 468); on the receiver \<open>G_twice\<close> the same call yields a
  finite point, so the result is not a function of \<open>p\<close> and \<open>q\<close>; and on a receiver
  flagged infinity \<open>SetAdd(G, G)\<close> and \<open>SetDouble(G)\<close> end with different flags, line 506
  clearing the flag that \<open>SetDouble\<close> leaves as it is. (2) In the mixed overload
  \<open>U1\<close> is \<open>Normalize\<close> of \<open>p.x\<close> (line 551), which is not \<open>p.x\<close> modulo \<open>p\<close> for the
  magnitude-2 limbs of \<open>PW\<close>: adding to \<open>PW\<close> its negative \<open>PW_neg\<close> (\<open>U1 = U2\<close> and
  \<open>S1 = -S2\<close> modulo \<open>p\<close>) takes the generic branch and yields a finite point.
\<close>

theorem SetAdd_wrong_branch:
  "\<not> fInfinity G \<and> val (py G) mod P \<noteq> 0 \<and> fInfinity GroupElemJac_inf
   \<and> SetAdd GroupElemJac_inf G G = Some GroupElemJac_inf
   \<and> map_option fInfinity (SetAdd G_twice G G) = Some False
   \<and> map_option fInfinity (SetAdd (G_twice\<lparr>fInfinity := True\<rparr>) G G) = Some False
   \<and> map_option fInfinity (SetDouble (G_twice\<lparr>fInfinity := True\<rparr>) G) = Some True
   \<and> \<not> fInfinity PW \<and> on_curve PW \<and> \<not> fInfinity PW_neg
   \<and> val (px PW) mod P = val (px PW_neg) * val (pz PW) ^ 2 mod P
   \<and> (val (py PW) + val (py PW_neg) * val (pz PW) ^ 3) mod P = 0
   \<and> map_option fInfinity (SetAdd_affine GroupElemJac_inf PW PW_neg) = Some False"
proof -
  have 1: "\<not> fInfinity G" "val (py G) mod P \<noteq> 0" "fInfinity GroupElemJac_inf"
    by (simp_all add: G_def GroupElemJac_xy_def GroupElemJac_inf_def val_def P_def)
  have 2: "\<not> fInfinity PW" "\<not> fInfinity PW_neg" "val (pz PW) = 1"
    by (simp_all add: PW_def PW_neg_def GroupElemJac_xy_def FieldElem_int_def val_def)
  have 3: "val (px PW) mod P = val (px PW_neg) * val (pz PW) ^ 2 mod P"
    unfolding 2(3)
    by (simp add: PW_def PW_neg_def GroupElemJac_xy_def FieldElem_int_def val_def P_def)
  have 4: "(val (py PW) + val (py PW_neg) * val (pz PW) ^ 3) mod P = 0"
    unfolding 2(3) by (simp add: PW_def PW_neg_def GroupElemJac_xy_def val_def P_def)
  from 1 2(1,2) 3 4 PW_on_curve SetAdd_fresh_G_G SetAdd_G_twice_G_G SetAdd_affine_PW
    SetAdd_flagged_G_G SetDouble_flagged_G
  show ?thesis by simp
qed

text \<open>
  Claim C7 says that the result of \<open>SetDouble\<close> on a point of the curve is infinity or
  passes \<open>IsValid\<close>. The congruence \<open>y^2 = x^3 + 7 z^6\<close> modulo \<open>p\<close> is indeed preserved
  when the receiver is an object distinct from \<open>p\<close> (\<open>SetDouble_on_curve\<close>,
  \<open>SetAdd_on_curve\<close>), but \<open>IsValid\<close> does not decide it: on the
  double of the point \<open>P0\<close>, itself valid by \<open>IsValid\<close>, the sum \<open>x^3 + 7 z^6\<close> has magnitude
  8 and \<open>operator==\<close> normalises it to another residue, so \<open>IsValid\<close> answers false for a
  non-infinity point of the curve.
\<close>

theorem IsValid_rejects_doubled_point:
  "\<not> fInfinity P0 \<and> on_curve P0 \<and> IsValid P0 = Some True
   \<and> SetDouble G P0 = Some P0_doubled
   \<and> \<not> fInfinity P0_doubled \<and> on_curve P0_doubled \<and> IsValid P0_doubled = Some False"
proof -
  have f: "\<not> fInfinity P0" "\<not> fInfinity P0_doubled" by (simp_all add: P0_def P0_doubled_def)
  from SetDouble_on_curve [OF P0_operand P0_on_curve, of G] f(2)
  have "on_curve P0_doubled" by (simp add: SetDouble_P0)
  with f P0_on_curve IsValid_P0 SetDouble_P0 IsValid_P0_doubled show ?thesis by simp
qed

text \<open>
  Claim C9 says that \<open>SetNeg a m\<close> negates modulo \<open>p\<close> without unsigned underflow whenever
  the limbs of \<open>a\<close> are within the magnitude-\<open>m\<close> bounds. On \<open>edge_input\<close>, within the
  magnitude-1 bounds, limb 1 is \<open>2^53 - 1\<close> while \<open>(m + 1) * L\<^sub>1 = 2^53 - 2\<close>: the
  subtraction of line 117 wraps to \<open>2^64 - 1\<close>, and \<open>a + SetNeg a 1\<close> stands for \<open>2^116\<close>
  modulo \<open>p\<close>, not for 0.
\<close>

theorem SetNeg_underflows_at_bound:
  "mag 1 edge_input
   \<and> uint (0xFFFFFFFFFFFFF * word_of_int (1 + 1) :: u64) < uint (n1 edge_input)
   \<and> SetNeg edge_input 1
       = \<lparr>n0 = 0x1FFFFDFFFFF85E, n1 = 0xFFFFFFFFFFFFFFFF, n2 = 0x1FFFFFFFFFFFFE,
          n3 = 0x1FFFFFFFFFFFFE, n4 = 0x1FFFFFFFFFFFE\<rparr>
   \<and> (val edge_input + val (SetNeg edge_input 1)) mod P = 2 ^ 116"
  by (simp add: mag_def SetNeg_def val_def P_def edge_input_def
        unsigned_minus_1_eq_mask mask_eq_exp_minus_1)

text \<open>
  Claim C10 says that \<open>SetHex\<close> parses right-aligned, a short string standing for the same
  value as the string left-padded with \<open>0\<close>. The loop of lines 356-359 puts character
  \<open>str[63 - i]\<close> into nibble \<open>i\<close>, so the first character is the most significant nibble
  whatever the length: the one-character string \<open>1\<close> is parsed to \<open>2^252\<close>, the 64-character
  string \<open>00...01\<close> to 1.
\<close>

theorem SetHex_not_right_aligned:
  "val (SetHex ''1'') = 2 ^ 252 \<and> val (SetHex (replicate 63 CHR ''0'' @ ''1'')) = 1"
  by (simp add: SetHex_1 SetHex_0_1 FieldElem_int_def val_def)

text \<open>
  Claim C10, amended. \<open>SetHex\<close> parses left-aligned. For every string \<open>s\<close> the result stands
  for a number below \<open>2^256\<close> whose nibble \<open>63 - k\<close>, for each \<open>k < 64\<close>, is the value that
  the table \<open>cvt\<close> gives character \<open>k\<close> of \<open>s\<close>, and 0 where \<open>s\<close> has no character \<open>k\<close>: the
  first character is the most significant nibble. So a string of at most 64 characters is
  parsed to the same field element as that string right-padded with \<open>0\<close> to 64
  characters. \<open>ToString\<close> yields exactly 64 characters, each one of \<open>0123456789ABCDEF\<close>,
  character \<open>k\<close> being the digit of nibble \<open>63 - k\<close> of the value of the normalised
  receiver: most significant nibble first.
\<close>

theorem SetHex_left_aligned:
  "(length s \<le> 64 \<longrightarrow> SetHex s = SetHex (s @ replicate (64 - length s) CHR ''0''))
   \<and> 0 \<le> val (SetHex s) \<and> val (SetHex s) < 2 ^ 256
   \<and> (\<forall>k<64. val (SetHex s) div 16 ^ (63 - k) mod 16 = digit s k)
   \<and> length (fst (ToString a)) = 64 \<and> set (fst (ToString a)) \<subseteq> set hexchars
   \<and> (\<forall>k<64. fst (ToString a) ! k
                 = hexchars ! nat (val (Normalize a) div 16 ^ (63 - k) mod 16))"
proof -
  have "limbs52 (SetHex s)" unfolding SetHex_def by (rule limbs52_Set)
  then have "0 \<le> val (SetHex s) \<and> val (SetHex s) < 2 ^ 256"
    by (simp add: limbs52_def val_def)
  with SetHex_pad [of s] SetHex_nibble [of _ s] ToString_length [of a] ToString_chars [of a]
    ToString_nth [of _ a]
  show ?thesis by simp
qed

theorem SetHex_left_aligned_witness:
  "length ''1'' \<le> 64 \<and> SetHex ''1'' = SetHex (''1'' @ replicate 63 CHR ''0'')
   \<and> val (SetHex ''1'') div 16 ^ 63 mod 16 = 1
   \<and> length (fst (ToString (FieldElem_int 31))) = 64
   \<and> fst (ToString (FieldElem_int 31)) ! 63 = CHR ''F''"
proof -
  note T = SetHex_left_aligned [of "''1''" "FieldElem_int 31"]
  from T have p: "SetHex ''1'' = SetHex (''1'' @ replicate 63 CHR ''0'')" by simp
  from T have a: "\<forall>k<64. val (SetHex ''1'') div 16 ^ (63 - k) mod 16 = digit ''1'' k" by blast
  have n: "val (SetHex ''1'') div 16 ^ 63 mod 16 = 1"
    using a [rule_format, of 0] by (simp add: digit_def cvt_def)
  from T have l: "length (fst (ToString (FieldElem_int 31))) = 64" by blast
  from T have b: "\<forall>k<64. fst (ToString (FieldElem_int 31)) ! k
      = hexchars ! nat (val (Normalize (FieldElem_int 31)) div 16 ^ (63 - k) mod 16)" by blast
  have c: "fst (ToString (FieldElem_int 31)) ! 63 = CHR ''F''"
    using b [rule_format, of 63]
    by (simp add: FieldElem_int_def Normalize_def val_def hexchars_def)
  from p n l c show ?thesis by simp
qed


end
